theory Spec2Isabelle
  imports Complex_Main "HOL-Library.Product_Lexorder"
begin

section \<open>Python values\<close>

text \<open>
  A Python \<open>str\<close> is a sequence of Unicode code points; it is modelled as a list of
  code point numbers, so that \<open>len\<close> is \<open>length\<close> and the Chinese literals of the source
  can be written down.  \<open>str_of\<close> turns an ASCII literal of this file into such a list.
\<close>

type_synonym pystr = "nat list"

definition str_of :: "string \<Rightarrow> pystr" where
  "str_of s = map of_char s"

text \<open>
  The numbers of the program are Python ints (unbounded) and floats (\<open>float(row[1])\<close>,
  \<open>float("inf")\<close>).  Python compares an int with a float exactly, so one type holds both:
  a rational, one of the two infinities, or the float NaN.  Every comparison with NaN
  is false.
\<close>

datatype pynum = NaN | NegInf | Fin rat | PosInf

fun py_lt :: "pynum \<Rightarrow> pynum \<Rightarrow> bool" where
  "py_lt NaN _ = False"
| "py_lt _ NaN = False"
| "py_lt _ NegInf = False"
| "py_lt NegInf _ = True"
| "py_lt PosInf _ = False"
| "py_lt (Fin x) PosInf = True"
| "py_lt (Fin x) (Fin y) = (x < y)"

fun py_le :: "pynum \<Rightarrow> pynum \<Rightarrow> bool" where
  "py_le NaN _ = False"
| "py_le _ NaN = False"
| "py_le NegInf _ = True"
| "py_le _ PosInf = True"
| "py_le PosInf _ = False"
| "py_le (Fin x) NegInf = False"
| "py_le (Fin x) (Fin y) = (x \<le> y)"

definition py_ge :: "pynum \<Rightarrow> pynum \<Rightarrow> bool" where
  "py_ge x y = py_le y x"

datatype py_error = ValueError

section \<open>RangeConfigurator.get\_ranges\<close>

text \<open>
  \<open>str.isdigit\<close> and \<open>int\<close> belong to the Python runtime.  Both read the Unicode
  character database, which is taken as a parameter \<open>ucd\<close> giving the class of each code
  point: a decimal digit with its value (category Nd: \<open>isdigit\<close> holds and \<open>int\<close> accepts
  it), a digit that is not a decimal (superscripts, circled digits: \<open>isdigit\<close> holds and
  \<open>int\<close> raises ValueError), or anything else.
\<close>

datatype char_class = Decimal nat | Digit | Other

text \<open>\<open>s.isdigit()\<close>: at least one character, and every character is a digit.\<close>

definition isdigit :: "(nat \<Rightarrow> char_class) \<Rightarrow> pystr \<Rightarrow> bool" where
  "isdigit ucd s = (s \<noteq> [] \<and> list_all (\<lambda>c. ucd c \<noteq> Other) s)"

text \<open>
  \<open>int(s)\<close> for a string that passed \<open>isdigit\<close> (so without sign, blank or underscore):
  the base 10 value, or ValueError when a character has no decimal value.
\<close>

fun int_digits :: "(nat \<Rightarrow> char_class) \<Rightarrow> nat \<Rightarrow> pystr \<Rightarrow> py_error + nat" where
  "int_digits ucd acc [] = Inr acc"
| "int_digits ucd acc (c # cs) =
     (case ucd c of Decimal d \<Rightarrow> int_digits ucd (10 * acc + d) cs | _ \<Rightarrow> Inl ValueError)"

definition py_int :: "(nat \<Rightarrow> char_class) \<Rightarrow> pystr \<Rightarrow> py_error + nat" where
  "py_int ucd s = (if s = [] then Inl ValueError else int_digits ucd 0 s)"

text \<open>
  The table on the code points below 256, where it has the ASCII digits as decimals
  and the superscripts U+00B2, U+00B3 and U+00B9 as digits that are not decimals.
\<close>

definition ucd_latin1 :: "nat \<Rightarrow> char_class" where
  "ucd_latin1 c =
     (if 48 \<le> c \<and> c \<le> 57 then Decimal (c - 48)
      else if c = 178 \<or> c = 179 \<or> c = 185 then Digit
      else Other)"

text \<open>
  The four messages that \<open>get_ranges\<close> appends to \<open>errors\<close>, in the order of the checks:
  minimum is not a number (with the text), maximum is neither a number nor \<open>inf\<close>
  (with the text), empty folder name, and minimum not below maximum (with both
  numbers).
\<close>

datatype range_error =
    MinNotDigit pystr
  | MaxNotDigit pystr
  | EmptyDirName
  | MinNotBelowMax nat pynum

type_synonym range = "pynum \<times> pynum \<times> pystr"

text \<open>
  The loop of \<open>get_ranges\<close> over \<open>self.entries\<close>, each entry read as its three texts.
  \<open>continue\<close> is the recursive call with one more error; an exception of \<open>int\<close> leaves
  the function.
\<close>

fun get_ranges_loop ::
  "(nat \<Rightarrow> char_class) \<Rightarrow> (pystr \<times> pystr \<times> pystr) list \<Rightarrow> range list \<Rightarrow> range_error list
     \<Rightarrow> py_error + (range list \<times> range_error list)" where
  "get_ranges_loop ucd [] ranges errors = Inr (ranges, errors)"
| "get_ranges_loop ucd ((min_val, max_val, dir_name) # rest) ranges errors =
     (if \<not> isdigit ucd min_val then
        get_ranges_loop ucd rest ranges (errors @ [MinNotDigit min_val])
      else if max_val \<noteq> str_of ''inf'' \<and> \<not> isdigit ucd max_val then
        get_ranges_loop ucd rest ranges (errors @ [MaxNotDigit max_val])
      else if dir_name = [] then
        get_ranges_loop ucd rest ranges (errors @ [EmptyDirName])
      else
        (case py_int ucd min_val of
           Inl e \<Rightarrow> Inl e
         | Inr min_num \<Rightarrow>
             (case (if max_val = str_of ''inf'' then Inr PosInf
                    else map_sum id (\<lambda>n. Fin (of_nat n)) (py_int ucd max_val)) of
                Inl e \<Rightarrow> Inl e
              | Inr max_num \<Rightarrow>
                  if py_ge (Fin (of_nat min_num)) max_num then
                    get_ranges_loop ucd rest ranges (errors @ [MinNotBelowMax min_num max_num])
                  else
                    get_ranges_loop ucd rest
                      (ranges @ [(Fin (of_nat min_num), max_num, dir_name)]) errors)))"

definition get_ranges ::
  "(nat \<Rightarrow> char_class) \<Rightarrow> (pystr \<times> pystr \<times> pystr) list
     \<Rightarrow> py_error + (range list \<times> range_error list)" where
  "get_ranges ucd entries = get_ranges_loop ucd entries [] []"

section \<open>difflib.SequenceMatcher\<close>

fun indices_from :: "nat \<Rightarrow> 'a list \<Rightarrow> 'a \<Rightarrow> nat list" where
  "indices_from i [] elt = []"
| "indices_from i (x # xs) elt =
     (if x = elt then i # indices_from (Suc i) xs elt else indices_from (Suc i) xs elt)"

definition bpopular :: "'a list \<Rightarrow> 'a \<Rightarrow> bool" where
  "bpopular b elt = (200 \<le> length b \<and> length b div 100 + 1 < length (indices_from 0 b elt))"

definition b2j :: "'a list \<Rightarrow> 'a \<Rightarrow> nat list" where
  "b2j b elt = (if bpopular b elt then [] else indices_from 0 b elt)"

definition isbjunk :: "'a \<Rightarrow> bool" where
  "isbjunk elt = False"

definition j2lenget :: "(nat \<Rightarrow> nat option) \<Rightarrow> nat \<Rightarrow> nat" where
  "j2lenget j2len j = (case j of 0 \<Rightarrow> 0 | Suc j' \<Rightarrow> (case j2len j' of None \<Rightarrow> 0 | Some k \<Rightarrow> k))"

fun flm_inner ::
  "nat \<Rightarrow> nat \<Rightarrow> nat \<Rightarrow> (nat \<Rightarrow> nat option) \<Rightarrow> nat list \<Rightarrow> (nat \<Rightarrow> nat option) \<Rightarrow> nat \<times> nat \<times> nat
     \<Rightarrow> (nat \<Rightarrow> nat option) \<times> (nat \<times> nat \<times> nat)" where
  "flm_inner blo bhi i j2len [] newj2len best = (newj2len, best)"
| "flm_inner blo bhi i j2len (j # js) newj2len (besti, bestj, bestsize) =
     (if j < blo then flm_inner blo bhi i j2len js newj2len (besti, bestj, bestsize)
      else if bhi \<le> j then (newj2len, (besti, bestj, bestsize))
      else
        (let k = j2lenget j2len j + 1 in
         flm_inner blo bhi i j2len js (newj2len(j \<mapsto> k))
           (if bestsize < k then (Suc i - k, Suc j - k, k) else (besti, bestj, bestsize))))"

fun flm_outer ::
  "'a list \<Rightarrow> ('a \<Rightarrow> nat list) \<Rightarrow> nat \<Rightarrow> nat \<Rightarrow> nat list \<Rightarrow> (nat \<Rightarrow> nat option) \<Rightarrow> nat \<times> nat \<times> nat
     \<Rightarrow> nat \<times> nat \<times> nat" where
  "flm_outer a bj blo bhi [] j2len best = best"
| "flm_outer a bj blo bhi (i # is) j2len best =
     (case flm_inner blo bhi i j2len (bj (a ! i)) Map.empty best of
        (newj2len, best') \<Rightarrow> flm_outer a bj blo bhi is newj2len best')"

function extend_left ::
  "bool \<Rightarrow> 'a list \<Rightarrow> 'a list \<Rightarrow> nat \<Rightarrow> nat \<Rightarrow> nat \<times> nat \<times> nat \<Rightarrow> nat \<times> nat \<times> nat" where
  "extend_left junk a b alo blo (besti, bestj, bestsize) =
     (if alo < besti \<and> blo < bestj \<and> isbjunk (b ! (bestj - 1)) = junk
         \<and> a ! (besti - 1) = b ! (bestj - 1)
      then extend_left junk a b alo blo (besti - 1, bestj - 1, bestsize + 1)
      else (besti, bestj, bestsize))"
  by pat_completeness auto
termination
  by (relation "measure (\<lambda>(junk, a, b, alo, blo, besti, bestj, bestsize). besti)") auto

function extend_right ::
  "bool \<Rightarrow> 'a list \<Rightarrow> 'a list \<Rightarrow> nat \<Rightarrow> nat \<Rightarrow> nat \<times> nat \<times> nat \<Rightarrow> nat \<times> nat \<times> nat" where
  "extend_right junk a b ahi bhi (besti, bestj, bestsize) =
     (if besti + bestsize < ahi \<and> bestj + bestsize < bhi
         \<and> isbjunk (b ! (bestj + bestsize)) = junk
         \<and> a ! (besti + bestsize) = b ! (bestj + bestsize)
      then extend_right junk a b ahi bhi (besti, bestj, bestsize + 1)
      else (besti, bestj, bestsize))"
  by pat_completeness auto
termination
  by (relation "measure (\<lambda>(junk, a, b, ahi, bhi, besti, bestj, bestsize). ahi - (besti + bestsize))") auto

definition find_longest_match ::
  "'a list \<Rightarrow> 'a list \<Rightarrow> nat \<Rightarrow> nat \<Rightarrow> nat \<Rightarrow> nat \<Rightarrow> nat \<times> nat \<times> nat" where
  "find_longest_match a b alo ahi blo bhi =
     extend_right True a b ahi bhi
       (extend_left True a b alo blo
          (extend_right False a b ahi bhi
             (extend_left False a b alo blo
                (flm_outer a (b2j b) blo bhi [alo..<ahi] Map.empty (alo, blo, 0)))))"

section \<open>The loops of find\_longest\_match\<close>

lemma set_indices_from:
  "set (indices_from n xs x) = {n + k | k. k < length xs \<and> xs ! k = x}"
proof (induction xs arbitrary: n)
  case Nil
  then show ?case by simp
next
  case (Cons y ys)
  have *: "{n + k | k. k < Suc (length ys) \<and> (y # ys) ! k = x}
         = (if y = x then {n} else {}) \<union> {Suc n + k | k. k < length ys \<and> ys ! k = x}"
    (is "?L = ?R")
  proof (rule set_eqI)
    fix m
    show "m \<in> ?L \<longleftrightarrow> m \<in> ?R"
    proof
      assume "m \<in> ?L"
      then obtain k where k: "m = n + k" "k < Suc (length ys)" "(y # ys) ! k = x" by blast
      show "m \<in> ?R"
      proof (cases k)
        case 0
        with k show ?thesis by simp
      next
        case (Suc k')
        with k have "m = Suc n + k'" "k' < length ys" "ys ! k' = x" by simp_all
        then show ?thesis by blast
      qed
    next
      assume "m \<in> ?R"
      then consider "y = x" "m = n" | k where "m = Suc n + k" "k < length ys" "ys ! k = x"
        by (auto split: if_splits)
      then show "m \<in> ?L"
      proof cases
        case 1
        then have "m = n + 0 \<and> 0 < Suc (length ys) \<and> (y # ys) ! 0 = x" by simp
        then show ?thesis by blast
      next
        case 2
        then have "m = n + Suc k \<and> Suc k < Suc (length ys) \<and> (y # ys) ! Suc k = x" by simp
        then show ?thesis by blast
      qed
    qed
  qed
  show ?case using Cons.IH [of "Suc n"] * by (simp del: add_Suc add: )
qed

lemma indices_from_ge: "m \<in> set (indices_from n xs x) \<Longrightarrow> n \<le> m"
  by (auto simp: set_indices_from)

lemma sorted_indices_from: "sorted_wrt (<) (indices_from n xs x)"
proof (induction xs arbitrary: n)
  case Nil
  then show ?case by simp
next
  case (Cons y ys)
  have "\<forall>m \<in> set (indices_from (Suc n) ys x). n < m"
    using indices_from_ge [of _ "Suc n" ys x] by (auto simp: Suc_le_eq)
  with Cons.IH [of "Suc n"] show ?case by simp
qed

lemma mem_b2j:
  "j \<in> set (b2j b x) \<longleftrightarrow> \<not> bpopular b x \<and> j < length b \<and> b ! j = x"
  by (auto simp: b2j_def set_indices_from)

lemma sorted_b2j: "sorted_wrt (<) (b2j b x)"
  by (simp add: b2j_def sorted_indices_from)

primrec dlen :: "(nat \<Rightarrow> nat \<Rightarrow> bool) \<Rightarrow> nat \<Rightarrow> nat \<Rightarrow> nat" where
  "dlen M 0 j = (if M 0 j then 1 else 0)"
| "dlen M (Suc i) j =
     (if M (Suc i) j then (case j of 0 \<Rightarrow> 1 | Suc j' \<Rightarrow> Suc (dlen M i j')) else 0)"

definition dprev :: "(nat \<Rightarrow> nat \<Rightarrow> bool) \<Rightarrow> nat \<Rightarrow> nat \<Rightarrow> nat" where
  "dprev M i j = (case i of 0 \<Rightarrow> 0 | Suc i' \<Rightarrow> (case j of 0 \<Rightarrow> 0 | Suc j' \<Rightarrow> dlen M i' j'))"

definition upd :: "nat \<Rightarrow> nat \<Rightarrow> nat \<Rightarrow> nat \<times> nat \<times> nat \<Rightarrow> nat \<times> nat \<times> nat" where
  "upd k i j best = (if snd (snd best) < k then (Suc i - k, Suc j - k, k) else best)"

lemma dlen_dprev: "dlen M i j = (if M i j then Suc (dprev M i j) else 0)"
  by (cases i; cases j) (simp_all add: dprev_def)

lemma flm_inner_fold:
  "sorted_wrt (<) js \<Longrightarrow>
   flm_inner blo bhi i j2len js newj2len best =
     (fold (\<lambda>j m. m(j \<mapsto> j2lenget j2len j + 1)) (filter (\<lambda>j. blo \<le> j \<and> j < bhi) js) newj2len,
      fold (\<lambda>j. upd (j2lenget j2len j + 1) i j) (filter (\<lambda>j. blo \<le> j \<and> j < bhi) js) best)"
proof (induction js arbitrary: newj2len best)
  case Nil
  then show ?case by simp
next
  case (Cons j js)
  obtain besti bestj bestsize where best: "best = (besti, bestj, bestsize)"
    by (cases best) auto
  from Cons.prems have sorted: "sorted_wrt (<) js" and gt: "\<forall>x\<in>set js. j < x" by simp_all
  show ?case
  proof (cases "j < blo")
    case True
    then show ?thesis using Cons.IH [OF sorted] best by simp
  next
    case False
    show ?thesis
    proof (cases "bhi \<le> j")
      case True
      with gt have "filter (\<lambda>j. blo \<le> j \<and> j < bhi) js = []"
        by (auto simp: filter_empty_conv)
      with True False best show ?thesis by simp
    next
      case inside: False
      with False best show ?thesis
        using Cons.IH [OF sorted] by (simp add: Let_def upd_def)
    qed
  qed
qed

lemma fold_map_upd:
  "fold (\<lambda>j m. m(j \<mapsto> f j)) xs m0 k = (if k \<in> set xs then Some (f k) else m0 k)"
  by (induction xs arbitrary: m0) auto

definition row_cells :: "('a \<Rightarrow> nat list) \<Rightarrow> 'a list \<Rightarrow> nat \<Rightarrow> nat \<Rightarrow> nat \<Rightarrow> nat list" where
  "row_cells bj a blo bhi i = filter (\<lambda>j. blo \<le> j \<and> j < bhi) (bj (a ! i))"

definition cells :: "('a \<Rightarrow> nat list) \<Rightarrow> 'a list \<Rightarrow> nat \<Rightarrow> nat \<Rightarrow> nat list \<Rightarrow> (nat \<times> nat) list" where
  "cells bj a blo bhi is = concat (map (\<lambda>i. map (Pair i) (row_cells bj a blo bhi i)) is)"

definition anchor ::
  "('a \<Rightarrow> nat list) \<Rightarrow> 'a list \<Rightarrow> nat \<Rightarrow> nat \<Rightarrow> nat \<Rightarrow> nat \<Rightarrow> nat \<Rightarrow> nat \<Rightarrow> bool" where
  "anchor bj a alo ahi blo bhi i j =
     (alo \<le> i \<and> i < ahi \<and> blo \<le> j \<and> j < bhi \<and> j \<in> set (bj (a ! i)))"

lemma fold_upd_cells_row:
  "fold (\<lambda>j. upd (v i j) i j) js best = fold (\<lambda>(i, j). upd (v i j) i j) (map (Pair i) js) best"
  by (induction js arbitrary: best) auto

lemma flm_outer_fold:
  assumes "\<And>x. sorted_wrt (<) (bj x)"
    and "M = anchor bj a alo ahi blo bhi"
    and "alo \<le> i"
    and "\<And>j. j2lenget j2len j = dprev M i j"
  shows "flm_outer a bj blo bhi [i..<ahi] j2len best =
         fold (\<lambda>(i, j). upd (dlen M i j) i j) (cells bj a blo bhi [i..<ahi]) best"
  using assms(3,4)
proof (induction "ahi - i" arbitrary: i j2len best)
  case 0
  then show ?case by (simp add: cells_def)
next
  case (Suc n)
  then have lt: "i < ahi" by simp
  then have upt: "[i..<ahi] = i # [Suc i..<ahi]" by (simp add: upt_conv_Cons)
  let ?js = "row_cells bj a blo bhi i"
  let ?new = "fold (\<lambda>j m. m(j \<mapsto> j2lenget j2len j + 1)) ?js Map.empty"
  have inner: "flm_inner blo bhi i j2len (bj (a ! i)) Map.empty best =
      (?new, fold (\<lambda>j. upd (j2lenget j2len j + 1) i j) ?js best)"
    using flm_inner_fold [OF assms(1)] by (simp add: row_cells_def)
  have mem: "j \<in> set ?js \<longleftrightarrow> M i j" for j
    using lt Suc.prems(1) by (auto simp: row_cells_def assms(2) anchor_def)
  have val: "j \<in> set ?js \<Longrightarrow> j2lenget j2len j + 1 = dlen M i j" for j
    using mem [of j] Suc.prems(2) [of j] by (simp add: dlen_dprev)
  have best': "fold (\<lambda>j. upd (j2lenget j2len j + 1) i j) ?js best
             = fold (\<lambda>j. upd (dlen M i j) i j) ?js best"
    by (rule fold_cong) (use val in \<open>auto simp del: dlen.simps\<close>)
  have inv: "j2lenget ?new j = dprev M (Suc i) j" for j
  proof (cases j)
    case 0
    then show ?thesis by (simp add: j2lenget_def dprev_def)
  next
    case (Suc j')
    show ?thesis
    proof (cases "j' \<in> set ?js")
      case True
      then show ?thesis using val [OF True] Suc
        by (simp add: j2lenget_def dprev_def fold_map_upd)
    next
      case False
      then have "\<not> M i j'" using mem by simp
      then have "dlen M i j' = 0" by (simp add: dlen_dprev)
      with False Suc show ?thesis
        by (simp add: j2lenget_def dprev_def fold_map_upd)
    qed
  qed
  have n: "n = ahi - Suc i" using Suc.hyps(2) by simp
  have "flm_outer a bj blo bhi [i..<ahi] j2len best =
        flm_outer a bj blo bhi [Suc i..<ahi] ?new (fold (\<lambda>j. upd (dlen M i j) i j) ?js best)"
    by (simp only: upt flm_outer.simps inner best' prod.case)
  also have "\<dots> = fold (\<lambda>(i, j). upd (dlen M i j) i j) (cells bj a blo bhi [Suc i..<ahi])
                     (fold (\<lambda>j. upd (dlen M i j) i j) ?js best)"
    using Suc.hyps(1) [OF n _ inv] Suc.prems(1) by simp
  also have "\<dots> = fold (\<lambda>(i, j). upd (dlen M i j) i j) (cells bj a blo bhi [i..<ahi]) best"
    by (simp add: upt cells_def fold_upd_cells_row [of "dlen M"])
  finally show ?case .
qed

definition lexlt :: "nat \<times> nat \<Rightarrow> nat \<times> nat \<Rightarrow> bool" where
  "lexlt c d = (fst c < fst d \<or> fst c = fst d \<and> snd c < snd d)"

lemma fold_upd_first_max:
  assumes "\<forall>c\<in>set cs. 0 < v (fst c) (snd c)"
  shows "(cs = [] \<and> fold (\<lambda>(i, j). upd (v i j) i j) cs (x, y, 0) = (x, y, 0)) \<or>
         (\<exists>pre i j post. cs = pre @ (i, j) # post
            \<and> fold (\<lambda>(i, j). upd (v i j) i j) cs (x, y, 0) = (Suc i - v i j, Suc j - v i j, v i j)
            \<and> (\<forall>c\<in>set pre. v (fst c) (snd c) < v i j)
            \<and> (\<forall>c\<in>set post. v (fst c) (snd c) \<le> v i j))"
  using assms
proof (induction cs rule: rev_induct)
  case Nil
  then show ?case by simp
next
  case (snoc c cs)
  obtain ci cj where c: "c = (ci, cj)" by (cases c) auto
  let ?f = "\<lambda>(i, j). upd (v i j) i j"
  let ?r = "fold ?f cs (x, y, 0)"
  let ?P = "\<lambda>pre i j post. cs @ [c] = pre @ (i, j) # post
            \<and> fold ?f (cs @ [c]) (x, y, 0) = (Suc i - v i j, Suc j - v i j, v i j)
            \<and> (\<forall>c\<in>set pre. v (fst c) (snd c) < v i j)
            \<and> (\<forall>c\<in>set post. v (fst c) (snd c) \<le> v i j)"
  have pos: "0 < v ci cj" using snoc.prems c by simp
  have step: "fold ?f (cs @ [c]) (x, y, 0) = upd (v ci cj) ci cj ?r" by (simp add: c)
  have prems: "\<forall>c\<in>set cs. 0 < v (fst c) (snd c)" using snoc.prems by simp
  from snoc.IH [OF prems] consider
      (empty) "cs = []" "?r = (x, y, 0)"
    | (some) pre i j post where "cs = pre @ (i, j) # post"
        "?r = (Suc i - v i j, Suc j - v i j, v i j)"
        "\<forall>c\<in>set pre. v (fst c) (snd c) < v i j"
        "\<forall>c\<in>set post. v (fst c) (snd c) \<le> v i j"
    by blast
  then have "\<exists>pre i j post. ?P pre i j post"
  proof cases
    case empty
    have "fold ?f (cs @ [c]) (x, y, 0) = (Suc ci - v ci cj, Suc cj - v ci cj, v ci cj)"
      unfolding step empty(2) using pos by (simp add: upd_def)
    then have "?P [] ci cj []" using empty(1) c by simp
    then show ?thesis by (intro exI)
  next
    case some
    show ?thesis
    proof (cases "v i j < v ci cj")
      case True
      have "fold ?f (cs @ [c]) (x, y, 0) = (Suc ci - v ci cj, Suc cj - v ci cj, v ci cj)"
        unfolding step some(2) using True by (simp add: upd_def)
      moreover have "\<forall>d\<in>set cs. v (fst d) (snd d) < v ci cj"
      proof
        fix d assume "d \<in> set cs"
        then consider "d \<in> set pre" | "d = (i, j)" | "d \<in> set post"
          unfolding some(1) by auto
        then show "v (fst d) (snd d) < v ci cj"
        proof cases
          case 1
          with some(3) have "v (fst d) (snd d) < v i j" by blast
          with True show ?thesis by simp
        next
          case 2
          with True show ?thesis by simp
        next
          case 3
          with some(4) have "v (fst d) (snd d) \<le> v i j" by blast
          with True show ?thesis by simp
        qed
      qed
      ultimately have "?P cs ci cj []" using c by simp
      then show ?thesis by (intro exI)
    next
      case False
      have "fold ?f (cs @ [c]) (x, y, 0) = (Suc i - v i j, Suc j - v i j, v i j)"
        unfolding step some(2) using False by (simp add: upd_def)
      moreover have "\<forall>d\<in>set (post @ [c]). v (fst d) (snd d) \<le> v i j"
        using some(4) False c by auto
      moreover have "cs @ [c] = pre @ (i, j) # (post @ [c])" using some(1) by simp
      ultimately have "?P pre i j (post @ [c])" using some(3) by simp
      then show ?thesis by (intro exI)
    qed
  qed
  then show ?case by (intro disjI2)
qed

lemma set_cells:
  "set (cells bj a blo bhi [alo..<ahi]) = {(i, j). anchor bj a alo ahi blo bhi i j}"
  by (auto simp: cells_def row_cells_def anchor_def)

lemma sorted_cells:
  assumes "\<And>x. sorted_wrt (<) (bj x)"
  shows "sorted_wrt lexlt (cells bj a blo bhi [m..<n])"
proof (induction n)
  case 0
  then show ?case by (simp add: cells_def)
next
  case (Suc n)
  show ?case
  proof (cases "m \<le> n")
    case False
    then show ?thesis by (simp add: cells_def)
  next
    case True
    have row: "sorted_wrt lexlt (map (Pair n) (row_cells bj a blo bhi n))"
      using sorted_wrt_filter [OF assms, of "\<lambda>j. blo \<le> j \<and> j < bhi" "a ! n"]
      by (simp add: sorted_wrt_map lexlt_def row_cells_def)
    have cross: "\<forall>c\<in>set (cells bj a blo bhi [m..<n]).
                 \<forall>d\<in>set (map (Pair n) (row_cells bj a blo bhi n)). lexlt c d"
      by (auto simp: cells_def lexlt_def)
    show ?thesis using True Suc row cross
      by (simp add: cells_def sorted_wrt_append)
  qed
qed

lemma sorted_wrt_lexlt_split:
  assumes "sorted_wrt lexlt (pre @ c # post)" and "d \<in> set (pre @ c # post)" and "lexlt d c"
  shows "d \<in> set pre"
proof -
  from assms(1) have post: "\<forall>e\<in>set post. lexlt c e"
    by (simp add: sorted_wrt_append)
  have "d \<noteq> c" using assms(3) by (auto simp: lexlt_def)
  moreover have "d \<notin> set post"
  proof
    assume "d \<in> set post"
    with post have "lexlt c d" by blast
    with assms(3) show False by (auto simp: lexlt_def)
  qed
  ultimately show ?thesis using assms(2) by auto
qed

text \<open>dlen\<close>

lemma dlen_le: "dlen M i j \<le> Suc i \<and> dlen M i j \<le> Suc j"
proof (induction i arbitrary: j)
  case 0
  then show ?case by simp
next
  case (Suc i)
  show ?case
  proof (cases j)
    case 0
    then show ?thesis by simp
  next
    case (Suc j')
    with Suc.IH [of j'] show ?thesis by simp
  qed
qed

lemma dlen_anchor: "t < dlen M i j \<Longrightarrow> M (i - t) (j - t)"
proof (induction i arbitrary: j t)
  case 0
  then show ?case by (simp split: if_splits)
next
  case (Suc i)
  show ?case
  proof (cases t)
    case 0
    with Suc.prems show ?thesis by (simp split: if_splits)
  next
    case t: (Suc t')
    show ?thesis
    proof (cases j)
      case 0
      with Suc.prems t show ?thesis by (simp split: if_splits)
    next
      case (Suc j')
      with Suc.prems t have "t' < dlen M i j'" by (simp split: if_splits)
      from Suc.IH [OF this] show ?thesis using t Suc by simp
    qed
  qed
qed

lemma dlen_ge:
  "k \<le> Suc i \<Longrightarrow> k \<le> Suc j \<Longrightarrow> (\<And>t. t < k \<Longrightarrow> M (i - t) (j - t)) \<Longrightarrow> k \<le> dlen M i j"
proof (induction i arbitrary: j k)
  case 0
  then show ?case by (cases k) (auto dest: meta_spec [of _ 0])
next
  case (Suc i)
  show ?case
  proof (cases k)
    case 0
    then show ?thesis by simp
  next
    case k: (Suc k')
    from Suc.prems(3) [of 0] k have M0: "M (Suc i) j" by simp
    show ?thesis
    proof (cases j)
      case 0
      with Suc.prems(2) k M0 show ?thesis by simp
    next
      case (Suc j')
      have "k' \<le> dlen M i j'"
      proof (rule Suc.IH)
        show "k' \<le> Suc i" using Suc.prems(1) k by simp
        show "k' \<le> Suc j'" using Suc.prems(2) k Suc by simp
        fix t assume "t < k'"
        then have "Suc t < k" using k by simp
        from Suc.prems(3) [OF this] show "M (i - t) (j' - t)" using Suc by simp
      qed
      with M0 Suc k show ?thesis by simp
    qed
  qed
qed

lemma dlen_not_longer:
  assumes "0 < dlen M i j" "dlen M i j \<le> i" "dlen M i j \<le> j"
  shows "\<not> M (i - dlen M i j) (j - dlen M i j)"
proof
  assume M: "M (i - dlen M i j) (j - dlen M i j)"
  have "Suc (dlen M i j) \<le> dlen M i j"
  proof (rule dlen_ge)
    show "Suc (dlen M i j) \<le> Suc i" "Suc (dlen M i j) \<le> Suc j" using assms by simp_all
    fix t assume "t < Suc (dlen M i j)"
    then consider "t < dlen M i j" | "t = dlen M i j" by linarith
    then show "M (i - t) (j - t)" using M dlen_anchor [of t M i j] by cases auto
  qed
  then show False by simp
qed

definition main_loop :: "'a list \<Rightarrow> 'a list \<Rightarrow> nat \<Rightarrow> nat \<Rightarrow> nat \<Rightarrow> nat \<Rightarrow> nat \<times> nat \<times> nat" where
  "main_loop a b alo ahi blo bhi = flm_outer a (b2j b) blo bhi [alo..<ahi] Map.empty (alo, blo, 0)"

lemma main_loop_spec:
  assumes M: "M = anchor (b2j b) a alo ahi blo bhi"
  shows "((\<forall>i j. \<not> M i j) \<and> main_loop a b alo ahi blo bhi = (alo, blo, 0)) \<or>
         (\<exists>i j. M i j
            \<and> main_loop a b alo ahi blo bhi = (Suc i - dlen M i j, Suc j - dlen M i j, dlen M i j)
            \<and> (\<forall>i' j'. M i' j' \<longrightarrow> dlen M i' j' \<le> dlen M i j)
            \<and> (\<forall>i' j'. M i' j' \<and> lexlt (i', j') (i, j) \<longrightarrow> dlen M i' j' < dlen M i j))"
proof -
  let ?cs = "cells (b2j b) a blo bhi [alo..<ahi]"
  have set_cs: "set ?cs = {(i, j). M i j}" by (simp add: set_cells M)
  have inv0: "j2lenget Map.empty j = dprev M alo j" for j
  proof (cases alo; cases j)
    fix alo' j' assume *: "alo = Suc alo'" "j = Suc j'"
    have "\<not> M alo' j'" by (simp add: M anchor_def *)
    then have "dlen M alo' j' = 0" by (simp add: dlen_dprev)
    then show ?thesis by (simp add: j2lenget_def dprev_def *)
  qed (simp_all add: j2lenget_def dprev_def)
  have eq: "main_loop a b alo ahi blo bhi = fold (\<lambda>(i, j). upd (dlen M i j) i j) ?cs (alo, blo, 0)"
    unfolding main_loop_def
    by (rule flm_outer_fold [OF sorted_b2j M order_refl inv0])
  have pos: "\<forall>c\<in>set ?cs. 0 < dlen M (fst c) (snd c)"
    using set_cs by (auto simp: dlen_dprev)
  from fold_upd_first_max [OF pos, of alo blo] consider
      (empty) "?cs = []" "main_loop a b alo ahi blo bhi = (alo, blo, 0)"
    | (some) pre i j post where "?cs = pre @ (i, j) # post"
        "main_loop a b alo ahi blo bhi = (Suc i - dlen M i j, Suc j - dlen M i j, dlen M i j)"
        "\<forall>c\<in>set pre. dlen M (fst c) (snd c) < dlen M i j"
        "\<forall>c\<in>set post. dlen M (fst c) (snd c) \<le> dlen M i j"
    unfolding eq by blast
  then show ?thesis
  proof cases
    case empty
    then have "\<forall>i j. \<not> M i j" using set_cs by auto
    with empty show ?thesis by simp
  next
    case some
    have Mij: "M i j" using set_cs some(1) by auto
    have max: "dlen M i' j' \<le> dlen M i j" if "M i' j'" for i' j'
    proof -
      from that have "(i', j') \<in> set (pre @ (i, j) # post)" using set_cs some(1) by auto
      then consider "(i', j') \<in> set pre" | "(i', j') = (i, j)" | "(i', j') \<in> set post" by auto
      then show ?thesis using some(3,4) by cases force+
    qed
    have first: "dlen M i' j' < dlen M i j" if "M i' j'" "lexlt (i', j') (i, j)" for i' j'
    proof -
      have sorted: "sorted_wrt lexlt (pre @ (i, j) # post)"
        using sorted_cells [of "b2j b" a blo bhi alo ahi] sorted_b2j some(1) by metis
      from that have "(i', j') \<in> set (pre @ (i, j) # post)" using set_cs some(1) by auto
      from sorted_wrt_lexlt_split [OF sorted this that(2)] some(3) show ?thesis by force
    qed
    show ?thesis using Mij some(2) max first by blast
  qed
qed

declare extend_left.simps [simp del] extend_right.simps [simp del]

lemma extend_left_junk [simp]: "extend_left True a b alo blo best = best"
  by (cases best) (simp add: isbjunk_def extend_left.simps)

lemma extend_right_junk [simp]: "extend_right True a b ahi bhi best = best"
  by (cases best) (simp add: isbjunk_def extend_right.simps)

lemma extend_left_spec:
  "\<exists>t. extend_left False a b alo blo (i, j, k) = (i - t, j - t, k + t)
     \<and> t \<le> i - alo \<and> t \<le> j - blo
     \<and> (\<forall>s<t. a ! (i - Suc s) = b ! (j - Suc s))
     \<and> \<not> (alo < i - t \<and> blo < j - t \<and> a ! (i - t - 1) = b ! (j - t - 1))"
proof (induction False a b alo blo "(i, j, k)" arbitrary: i j k rule: extend_left.induct)
  case (1 a b alo blo besti bestj bestsize)
  let ?P = "\<lambda>t. extend_left False a b alo blo (besti, bestj, bestsize)
       = (besti - t, bestj - t, bestsize + t)
     \<and> t \<le> besti - alo \<and> t \<le> bestj - blo
     \<and> (\<forall>s<t. a ! (besti - Suc s) = b ! (bestj - Suc s))
     \<and> \<not> (alo < besti - t \<and> blo < bestj - t \<and> a ! (besti - t - 1) = b ! (bestj - t - 1))"
  show ?case
  proof (cases "alo < besti \<and> blo < bestj \<and> a ! (besti - 1) = b ! (bestj - 1)")
    case False
    have "?P 0" by (subst extend_left.simps) (use False in \<open>auto simp: isbjunk_def\<close>)
    then show ?thesis by (rule exI)
  next
    case True
    then have cond: "alo < besti \<and> blo < bestj \<and> isbjunk (b ! (bestj - 1)) = False
        \<and> a ! (besti - 1) = b ! (bestj - 1)" by (simp add: isbjunk_def)
    from "1.hyps" [OF cond] obtain t where t:
      "extend_left False a b alo blo (besti - 1, bestj - 1, bestsize + 1)
         = (besti - 1 - t, bestj - 1 - t, bestsize + 1 + t)"
      "t \<le> besti - 1 - alo" "t \<le> bestj - 1 - blo"
      "\<forall>s<t. a ! (besti - 1 - Suc s) = b ! (bestj - 1 - Suc s)"
      "\<not> (alo < besti - 1 - t \<and> blo < bestj - 1 - t
           \<and> a ! (besti - 1 - t - 1) = b ! (bestj - 1 - t - 1))"
      by blast
    have unfold: "extend_left False a b alo blo (besti, bestj, bestsize)
        = extend_left False a b alo blo (besti - 1, bestj - 1, bestsize + 1)"
      by (subst extend_left.simps) (use cond in simp)
    have 1: "extend_left False a b alo blo (besti, bestj, bestsize)
        = (besti - Suc t, bestj - Suc t, bestsize + Suc t)"
      using unfold t(1) by simp
    have 2: "Suc t \<le> besti - alo" "Suc t \<le> bestj - blo" using t(2,3) cond by linarith+
    have 3: "\<forall>s<Suc t. a ! (besti - Suc s) = b ! (bestj - Suc s)"
    proof (intro allI impI)
      fix s assume "s < Suc t"
      show "a ! (besti - Suc s) = b ! (bestj - Suc s)"
      proof (cases s)
        case 0
        then show ?thesis using cond by simp
      next
        case (Suc s')
        then have "s' < t" using \<open>s < Suc t\<close> by simp
        with t(4) have "a ! (besti - 1 - Suc s') = b ! (bestj - 1 - Suc s')" by blast
        then show ?thesis using Suc by simp
      qed
    qed
    have 4: "\<not> (alo < besti - Suc t \<and> blo < bestj - Suc t
                \<and> a ! (besti - Suc t - 1) = b ! (bestj - Suc t - 1))"
      using t(5) by simp
    have "?P (Suc t)" using 1 2 3 4 by (intro conjI)
    then show ?thesis by (rule exI)
  qed
qed

lemma extend_right_spec:
  "\<exists>t. extend_right False a b ahi bhi (i, j, k) = (i, j, k + t)
     \<and> (t = 0 \<or> i + k + t \<le> ahi \<and> j + k + t \<le> bhi)
     \<and> (\<forall>s<t. a ! (i + k + s) = b ! (j + k + s))
     \<and> \<not> (i + k + t < ahi \<and> j + k + t < bhi \<and> a ! (i + k + t) = b ! (j + k + t))"
proof (induction False a b ahi bhi "(i, j, k)" arbitrary: k rule: extend_right.induct)
  case (1 a b ahi bhi bestsize)
  let ?P = "\<lambda>t. extend_right False a b ahi bhi (i, j, bestsize) = (i, j, bestsize + t)
     \<and> (t = 0 \<or> i + bestsize + t \<le> ahi \<and> j + bestsize + t \<le> bhi)
     \<and> (\<forall>s<t. a ! (i + bestsize + s) = b ! (j + bestsize + s))
     \<and> \<not> (i + bestsize + t < ahi \<and> j + bestsize + t < bhi
          \<and> a ! (i + bestsize + t) = b ! (j + bestsize + t))"
  show ?case
  proof (cases "i + bestsize < ahi \<and> j + bestsize < bhi \<and> a ! (i + bestsize) = b ! (j + bestsize)")
    case False
    have "?P 0" by (subst extend_right.simps) (use False in \<open>auto simp: isbjunk_def\<close>)
    then show ?thesis by (rule exI)
  next
    case True
    then have cond: "i + bestsize < ahi \<and> j + bestsize < bhi
        \<and> isbjunk (b ! (j + bestsize)) = False
        \<and> a ! (i + bestsize) = b ! (j + bestsize)" by (simp add: isbjunk_def)
    from "1.hyps" [OF cond] obtain t where t:
      "extend_right False a b ahi bhi (i, j, bestsize + 1) = (i, j, bestsize + 1 + t)"
      "t = 0 \<or> i + (bestsize + 1) + t \<le> ahi \<and> j + (bestsize + 1) + t \<le> bhi"
      "\<forall>s<t. a ! (i + (bestsize + 1) + s) = b ! (j + (bestsize + 1) + s)"
      "\<not> (i + (bestsize + 1) + t < ahi \<and> j + (bestsize + 1) + t < bhi
           \<and> a ! (i + (bestsize + 1) + t) = b ! (j + (bestsize + 1) + t))"
      by blast
    have unfold: "extend_right False a b ahi bhi (i, j, bestsize)
        = extend_right False a b ahi bhi (i, j, bestsize + 1)"
      by (subst extend_right.simps) (use cond in simp)
    have 1: "extend_right False a b ahi bhi (i, j, bestsize) = (i, j, bestsize + Suc t)"
      using unfold t(1) by simp
    have 2: "Suc t = 0 \<or> i + bestsize + Suc t \<le> ahi \<and> j + bestsize + Suc t \<le> bhi"
      using t(2) cond by auto
    have 3: "\<forall>s<Suc t. a ! (i + bestsize + s) = b ! (j + bestsize + s)"
    proof (intro allI impI)
      fix s assume "s < Suc t"
      show "a ! (i + bestsize + s) = b ! (j + bestsize + s)"
      proof (cases s)
        case 0
        then show ?thesis using cond by simp
      next
        case (Suc s')
        then have "s' < t" using \<open>s < Suc t\<close> by simp
        with t(3) have "a ! (i + (bestsize + 1) + s') = b ! (j + (bestsize + 1) + s')" by blast
        then show ?thesis using Suc by simp
      qed
    qed
    have 4: "\<not> (i + bestsize + Suc t < ahi \<and> j + bestsize + Suc t < bhi
                \<and> a ! (i + bestsize + Suc t) = b ! (j + bestsize + Suc t))"
      using t(4) by simp
    have "?P (Suc t)" using 1 2 3 4 by (intro conjI)
    then show ?thesis by (rule exI)
  qed
qed

lemma find_longest_match_main:
  "find_longest_match a b alo ahi blo bhi =
     extend_right False a b ahi bhi (extend_left False a b alo blo (main_loop a b alo ahi blo bhi))"
  by (simp add: find_longest_match_def main_loop_def)

lemma main_loop_bounds:
  assumes "main_loop a b alo ahi blo bhi = (bi, bj, bk)"
  shows "(bk = 0 \<and> bi = alo \<and> bj = blo) \<or>
         (0 < bk \<and> alo \<le> bi \<and> bi + bk \<le> ahi \<and> blo \<le> bj \<and> bj + bk \<le> bhi)"
proof -
  define M where "M = anchor (b2j b) a alo ahi blo bhi"
  from main_loop_spec [OF M_def] assms consider
      (none) "(bi, bj, bk) = (alo, blo, 0)"
    | (some) i j where "M i j" "(bi, bj, bk) = (Suc i - dlen M i j, Suc j - dlen M i j, dlen M i j)"
    by auto
  then show ?thesis
  proof cases
    case none
    then show ?thesis by simp
  next
    case some
    let ?K = "dlen M i j"
    have K: "0 < ?K" using some(1) by (simp add: dlen_dprev)
    have le: "?K \<le> Suc i" "?K \<le> Suc j" using dlen_le [of M i j] by simp_all
    have "M (i - (?K - 1)) (j - (?K - 1))" using dlen_anchor [of "?K - 1" M i j] K by simp
    then have lo: "alo \<le> i - (?K - 1)" "blo \<le> j - (?K - 1)"
      by (simp_all add: M_def anchor_def)
    have hi: "i < ahi" "j < bhi" using some(1) by (simp_all add: M_def anchor_def)
    have "bi = Suc i - ?K" "bj = Suc j - ?K" "bk = ?K" using some(2) by simp_all
    then show ?thesis using K le lo hi by auto
  qed
qed

lemma find_longest_match_bounds:
  assumes "find_longest_match a b alo ahi blo bhi = (i, j, k)" and "0 < k"
  shows "alo \<le> i \<and> i + k \<le> ahi \<and> blo \<le> j \<and> j + k \<le> bhi"
proof -
  obtain bi bj bk where main: "main_loop a b alo ahi blo bhi = (bi, bj, bk)"
    by (cases "main_loop a b alo ahi blo bhi") auto
  from extend_left_spec [of a b alo blo bi bj bk] obtain t where
    left: "extend_left False a b alo blo (bi, bj, bk) = (bi - t, bj - t, bk + t)"
      and t: "t \<le> bi - alo" "t \<le> bj - blo" by blast
  from extend_right_spec [of a b ahi bhi "bi - t" "bj - t" "bk + t"] obtain u where
    right: "extend_right False a b ahi bhi (bi - t, bj - t, bk + t) = (bi - t, bj - t, bk + t + u)"
      and u: "u = 0 \<or> bi - t + (bk + t) + u \<le> ahi \<and> bj - t + (bk + t) + u \<le> bhi" by blast
  have res: "i = bi - t" "j = bj - t" "k = bk + t + u"
    using assms(1) by (simp_all add: find_longest_match_main main left right)
  from main_loop_bounds [OF main] show ?thesis
  proof
    assume "bk = 0 \<and> bi = alo \<and> bj = blo"
    then show ?thesis using res t u assms(2) by auto
  next
    assume "0 < bk \<and> alo \<le> bi \<and> bi + bk \<le> ahi \<and> blo \<le> bj \<and> bj + bk \<le> bhi"
    then show ?thesis using res t u by auto
  qed
qed

section \<open>get\_matching\_blocks and ratio\<close>

function gmb_loop ::
  "'a list \<Rightarrow> 'a list \<Rightarrow> (nat \<times> nat \<times> nat \<times> nat) list \<Rightarrow> (nat \<times> nat \<times> nat) list
     \<Rightarrow> (nat \<times> nat \<times> nat) list" where
  "gmb_loop a b [] matching_blocks = matching_blocks"
| "gmb_loop a b ((alo, ahi, blo, bhi) # queue) matching_blocks =
     (case find_longest_match a b alo ahi blo bhi of
        (i, j, k) \<Rightarrow>
          if k \<noteq> 0 then
            gmb_loop a b
              ((if i + k < ahi \<and> j + k < bhi then [(i + k, ahi, j + k, bhi)] else []) @
               (if alo < i \<and> blo < j then [(alo, i, blo, j)] else []) @ queue)
              (matching_blocks @ [(i, j, k)])
          else gmb_loop a b queue matching_blocks)"
  by pat_completeness auto
termination
proof (relation "measure (\<lambda>(a, b, queue, blocks). sum_list (map (\<lambda>(alo, ahi, blo, bhi). 2 * (ahi - alo) + 1) queue))",
    goal_cases)
  case 1
  then show ?case by simp
next
  case (2 a b alo ahi blo bhi queue matching_blocks i y j k)
  then have flm: "find_longest_match a b alo ahi blo bhi = (i, j, k)" and k: "0 < k"
    by simp_all
  from find_longest_match_bounds [OF flm k] k show ?case by auto
next
  case (3 a b alo ahi blo bhi queue matching_blocks i y j k)
  then show ?case by simp
qed

declare gmb_loop.simps(2) [simp del]

fun collapse_loop ::
  "(nat \<times> nat \<times> nat) list \<Rightarrow> nat \<times> nat \<times> nat \<Rightarrow> (nat \<times> nat \<times> nat) list
     \<Rightarrow> (nat \<times> nat \<times> nat) \<times> (nat \<times> nat \<times> nat) list" where
  "collapse_loop [] cur non_adjacent = (cur, non_adjacent)"
| "collapse_loop ((i2, j2, k2) # rest) (i1, j1, k1) non_adjacent =
     (if i1 + k1 = i2 \<and> j1 + k1 = j2 then collapse_loop rest (i1, j1, k1 + k2) non_adjacent
      else collapse_loop rest (i2, j2, k2)
             (if k1 \<noteq> 0 then non_adjacent @ [(i1, j1, k1)] else non_adjacent))"

definition get_matching_blocks :: "'a list \<Rightarrow> 'a list \<Rightarrow> (nat \<times> nat \<times> nat) list" where
  "get_matching_blocks a b =
     (let la = length a; lb = length b;
          matching_blocks = sort (gmb_loop a b [(0, la, 0, lb)] [])
      in case collapse_loop matching_blocks (0, 0, 0) [] of
           ((i1, j1, k1), non_adjacent) \<Rightarrow>
             (if k1 \<noteq> 0 then non_adjacent @ [(i1, j1, k1)] else non_adjacent) @ [(la, lb, 0)])"

definition calculate_ratio :: "nat \<Rightarrow> nat \<Rightarrow> rat" where
  "calculate_ratio matches len = (if len \<noteq> 0 then 2 * of_nat matches / of_nat len else 1)"

definition ratio :: "'a list \<Rightarrow> 'a list \<Rightarrow> rat" where
  "ratio a b =
     calculate_ratio (sum_list (map (\<lambda>(i, j, k). k) (get_matching_blocks a b)))
       (length a + length b)"

text \<open>\<open>sum(triple[-1] for triple in blocks)\<close>\<close>

definition sizes :: "(nat \<times> nat \<times> nat) list \<Rightarrow> nat" where
  "sizes blocks = sum_list (map (\<lambda>(i, j, k). k) blocks)"

section \<open>The library calls of the two engines\<close>

text \<open>
  \<open>FileClassifier\<close> and \<open>ReportGenerator\<close> reach the file system through \<open>os\<close> and
  \<open>shutil\<close>, and compare names with \<open>SequenceMatcher(None, a, b).ratio()\<close>.  These calls
  are the fields of a record, so that every theorem about the engines holds for any file
  system \<open>'fs\<close> and any behaviour of the calls.  A call that can raise returns the
  exception \<open>'e\<close>; a call that changes the file system returns the new one, also when it
  raises.
\<close>

record ('fs, 'e) lib =
  join :: "pystr \<Rightarrow> pystr \<Rightarrow> pystr"
  basename :: "pystr \<Rightarrow> pystr"
  listdir :: "pystr \<Rightarrow> 'fs \<Rightarrow> 'e + pystr list"
  isdir :: "pystr \<Rightarrow> 'fs \<Rightarrow> bool"
  makedirs :: "pystr \<Rightarrow> 'fs \<Rightarrow> 'e option \<times> 'fs"
  move :: "pystr \<Rightarrow> pystr \<Rightarrow> 'fs \<Rightarrow> 'e option \<times> 'fs"
  matcher_ratio :: "pystr \<Rightarrow> pystr \<Rightarrow> rat"

section \<open>FileClassifier\<close>

text \<open>
  \<open>_find_project_folder\<close>: the loop over the listing, and the call of \<open>os.listdir\<close>
  before it.  The threshold \<open>0.8\<close> is the rational 4/5: the quotient \<open>2.0*M/T\<close> of two
  integers is rounded to the nearest float, as the literal \<open>0.8\<close> is, so for strings of
  fewer than \<open>2^50\<close> characters the float comparison and the exact one agree.
\<close>

fun find_project_folder_loop ::
  "('fs, 'e) lib \<Rightarrow> pystr \<Rightarrow> 'fs \<Rightarrow> pystr \<Rightarrow> pystr list \<Rightarrow> pystr option" where
  "find_project_folder_loop lib base_dir fs project_name [] = None"
| "find_project_folder_loop lib base_dir fs project_name (folder # rest) =
     (let folder_path = join lib base_dir folder in
      if isdir lib folder_path fs \<and> 4 / 5 < matcher_ratio lib project_name folder
      then Some folder_path
      else find_project_folder_loop lib base_dir fs project_name rest)"

definition find_project_folder ::
  "('fs, 'e) lib \<Rightarrow> pystr \<Rightarrow> 'fs \<Rightarrow> pystr \<Rightarrow> 'e + pystr option" where
  "find_project_folder lib base_dir fs project_name =
     (case listdir lib base_dir fs of
        Inl e \<Rightarrow> Inl e
      | Inr folders \<Rightarrow> Inr (find_project_folder_loop lib base_dir fs project_name folders))"

text \<open>The test of that loop on one entry of the listing.\<close>

definition over_threshold ::
  "('fs, 'e) lib \<Rightarrow> pystr \<Rightarrow> 'fs \<Rightarrow> pystr \<Rightarrow> pystr \<Rightarrow> bool" where
  "over_threshold lib base_dir fs project_name folder =
     (isdir lib (join lib base_dir folder) fs \<and> 4 / 5 < matcher_ratio lib project_name folder)"

text \<open>\<open>min_size <= project_size < max_size\<close>, a chained comparison.\<close>

definition in_range :: "range \<Rightarrow> pynum \<Rightarrow> bool" where
  "in_range r sz = (case r of (min_size, max_size, dir_name) \<Rightarrow>
     py_le min_size sz \<and> py_lt sz max_size)"

text \<open>\<open>FileClassifier._get_target_dir\<close>: the joined path of the first range that holds
  the size, or None.\<close>

fun get_target_dir_classify ::
  "('fs, 'e) lib \<Rightarrow> pystr \<Rightarrow> range list \<Rightarrow> pynum \<Rightarrow> pystr option" where
  "get_target_dir_classify lib base_dir [] project_size = None"
| "get_target_dir_classify lib base_dir ((min_size, max_size, dir_name) # ranges) project_size =
     (if py_le min_size project_size \<and> py_lt project_size max_size
      then Some (join lib base_dir dir_name)
      else get_target_dir_classify lib base_dir ranges project_size)"

text \<open>
  The body of the loop of \<open>run\<close> for one row.  A row is \<open>str(row[0])\<close> and the outcome of
  \<open>float(row[1])\<close>: a number, or None when it raised ValueError or IndexError (the row
  is skipped).  The two \<open>if x := ...\<close> test the truth value of a string, which is false
  for None and for the empty string.
\<close>

definition run_step ::
  "('fs, 'e) lib \<Rightarrow> pystr \<Rightarrow> range list \<Rightarrow> pystr \<times> pynum option \<Rightarrow> 'fs \<Rightarrow> 'e option \<times> 'fs" where
  "run_step lib base_dir ranges row fs =
     (case snd row of
        None \<Rightarrow> (None, fs)
      | Some project_size \<Rightarrow>
          (case find_project_folder lib base_dir fs (fst row) of
             Inl e \<Rightarrow> (Some e, fs)
           | Inr None \<Rightarrow> (None, fs)
           | Inr (Some folder_path) \<Rightarrow>
               if folder_path = [] then (None, fs)
               else
                 (case get_target_dir_classify lib base_dir ranges project_size of
                    None \<Rightarrow> (None, fs)
                  | Some target_dir \<Rightarrow>
                      if target_dir = [] then (None, fs)
                      else
                        (case makedirs lib target_dir fs of
                           (Some e, fs') \<Rightarrow> (Some e, fs')
                         | (None, fs') \<Rightarrow> move lib folder_path target_dir fs'))))"

text \<open>\<open>run\<close>: the rows in order; an exception ends the loop.\<close>

fun run :: "('fs, 'e) lib \<Rightarrow> pystr \<Rightarrow> range list \<Rightarrow> (pystr \<times> pynum option) list \<Rightarrow> 'fs
              \<Rightarrow> 'e option \<times> 'fs" where
  "run lib base_dir ranges [] fs = (None, fs)"
| "run lib base_dir ranges (row # rows) fs =
     (case run_step lib base_dir ranges row fs of
        (Some e, fs') \<Rightarrow> (Some e, fs')
      | (None, fs') \<Rightarrow> run lib base_dir ranges rows fs')"

section \<open>ReportGenerator\<close>

text \<open>The literal returned by \<open>ReportGenerator._get_target_dir\<close> when no range matches:
  the three code points U+672A U+5206 U+7C7B ("unclassified").\<close>

definition unclassified :: pystr where
  "unclassified = [0x672A, 0x5206, 0x7C7B]"

fun get_target_dir_report :: "range list \<Rightarrow> pynum \<Rightarrow> pystr" where
  "get_target_dir_report [] sz = unclassified"
| "get_target_dir_report ((min_size, max_size, dir_name) # ranges) sz =
     (if py_le min_size sz \<and> py_lt sz max_size then dir_name
      else get_target_dir_report ranges sz)"

text \<open>
  \<open>_find_best_match\<close>.  A project is its name and its size, None for the size None of
  \<open>_read_excel_data\<close>.  \<open>best_match\<close> is kept as the name and the size of the project,
  which is a number there.
\<close>

fun find_best_match_loop ::
  "('fs, 'e) lib \<Rightarrow> pystr \<Rightarrow> (pystr \<times> pynum option) list \<Rightarrow> (pystr \<times> pynum) option \<Rightarrow> rat
     \<Rightarrow> (pystr \<times> pynum) option \<times> rat" where
  "find_best_match_loop lib folder_name [] best_match max_similarity =
     (best_match, max_similarity)"
| "find_best_match_loop lib folder_name ((name, None) # projects) best_match max_similarity =
     find_best_match_loop lib folder_name projects best_match max_similarity"
| "find_best_match_loop lib folder_name ((name, Some sz) # projects) best_match max_similarity =
     (if max_similarity < matcher_ratio lib folder_name name
      then find_best_match_loop lib folder_name projects (Some (name, sz))
             (matcher_ratio lib folder_name name)
      else find_best_match_loop lib folder_name projects best_match max_similarity)"

definition find_best_match ::
  "('fs, 'e) lib \<Rightarrow> pystr \<Rightarrow> (pystr \<times> pynum option) list \<Rightarrow> (pystr \<times> pynum) option \<times> rat" where
  "find_best_match lib folder_name projects =
     find_best_match_loop lib folder_name projects None 0"

text \<open>One dictionary of \<open>report_data\<close>, its six keys in order.\<close>

record report_row =
  folder_name :: pystr
  matched_project :: pystr
  score :: rat
  project_size :: pynum
  target_category :: pystr
  actual_location :: pystr

text \<open>
  The two places of \<open>generate\<close> that call \<open>_find_best_match\<close> and append a row
  \<open>if best_match\<close>: the new value of \<open>report_data\<close>.
\<close>

definition append_row ::
  "('fs, 'e) lib \<Rightarrow> range list \<Rightarrow> (pystr \<times> pynum option) list \<Rightarrow> pystr \<Rightarrow> pystr
     \<Rightarrow> report_row list \<Rightarrow> report_row list" where
  "append_row lib ranges projects folder location report_data =
     (case find_best_match lib folder projects of
        (None, similarity) \<Rightarrow> report_data
      | (Some (name, sz), similarity) \<Rightarrow>
          report_data @
            [\<lparr>folder_name = folder, matched_project = name, score = similarity,
              project_size = sz, target_category = get_target_dir_report ranges sz,
              actual_location = location\<rparr>])"

text \<open>The inner loop of \<open>generate\<close>, over the listing of a range directory.\<close>

fun generate_sub_loop ::
  "('fs, 'e) lib \<Rightarrow> range list \<Rightarrow> (pystr \<times> pynum option) list \<Rightarrow> 'fs \<Rightarrow> pystr \<Rightarrow> pystr
     \<Rightarrow> pystr list \<Rightarrow> report_row list \<Rightarrow> report_row list" where
  "generate_sub_loop lib ranges projects fs entry entry_path [] report_data = report_data"
| "generate_sub_loop lib ranges projects fs entry entry_path (sub_entry # rest) report_data =
     generate_sub_loop lib ranges projects fs entry entry_path rest
       (if isdir lib (join lib entry_path sub_entry) fs
        then append_row lib ranges projects sub_entry entry report_data
        else report_data)"

text \<open>The outer loop of \<open>generate\<close>, over the listing of the base directory.\<close>

fun generate_loop ::
  "('fs, 'e) lib \<Rightarrow> pystr \<Rightarrow> range list \<Rightarrow> (pystr \<times> pynum option) list \<Rightarrow> 'fs
     \<Rightarrow> pystr list \<Rightarrow> report_row list \<Rightarrow> 'e + report_row list" where
  "generate_loop lib base_dir ranges projects fs [] report_data = Inr report_data"
| "generate_loop lib base_dir ranges projects fs (entry # rest) report_data =
     (let entry_path = join lib base_dir entry in
      if \<not> isdir lib entry_path fs then
        generate_loop lib base_dir ranges projects fs rest report_data
      else if entry \<in> set (map (\<lambda>(min_size, max_size, dir_name). dir_name) ranges) then
        (case listdir lib entry_path fs of
           Inl e \<Rightarrow> Inl e
         | Inr sub_entries \<Rightarrow>
             generate_loop lib base_dir ranges projects fs rest
               (generate_sub_loop lib ranges projects fs entry entry_path sub_entries
                  report_data))
      else
        generate_loop lib base_dir ranges projects fs rest
          (append_row lib ranges projects entry (basename lib base_dir) report_data))"

text \<open>\<open>generate\<close> up to the rows handed to \<open>pd.DataFrame\<close>.\<close>

definition generate ::
  "('fs, 'e) lib \<Rightarrow> pystr \<Rightarrow> range list \<Rightarrow> (pystr \<times> pynum option) list \<Rightarrow> 'fs
     \<Rightarrow> 'e + report_row list" where
  "generate lib base_dir ranges projects fs =
     (case listdir lib base_dir fs of
        Inl e \<Rightarrow> Inl e
      | Inr entries \<Rightarrow> generate_loop lib base_dir ranges projects fs entries [])"

text \<open>The projects that \<open>_find_best_match\<close> does not skip, with their sizes.\<close>

fun sized :: "(pystr \<times> pynum option) list \<Rightarrow> (pystr \<times> pynum) list" where
  "sized [] = []"
| "sized ((name, None) # projects) = sized projects"
| "sized ((name, Some sz) # projects) = (name, sz) # sized projects"

text \<open>
  The folders to report, as the specification enumerates them: each directory of the
  base directory that is not named like a range, with the base directory's own name as
  its location, and each directory inside a directory named like a range, with that
  name as its location.
\<close>

fun folders_to_report_loop ::
  "('fs, 'e) lib \<Rightarrow> pystr \<Rightarrow> range list \<Rightarrow> 'fs \<Rightarrow> pystr list \<Rightarrow> 'e + (pystr \<times> pystr) list" where
  "folders_to_report_loop lib base_dir ranges fs [] = Inr []"
| "folders_to_report_loop lib base_dir ranges fs (entry # rest) =
     (if \<not> isdir lib (join lib base_dir entry) fs then
        folders_to_report_loop lib base_dir ranges fs rest
      else if entry \<in> set (map (\<lambda>(min_size, max_size, dir_name). dir_name) ranges) then
        (case listdir lib (join lib base_dir entry) fs of
           Inl e \<Rightarrow> Inl e
         | Inr sub_entries \<Rightarrow>
             map_sum id
               (append (map (\<lambda>sub_entry. (sub_entry, entry))
                  (filter (\<lambda>sub_entry. isdir lib (join lib (join lib base_dir entry) sub_entry) fs)
                     sub_entries)))
               (folders_to_report_loop lib base_dir ranges fs rest))
      else
        map_sum id (Cons (entry, basename lib base_dir))
          (folders_to_report_loop lib base_dir ranges fs rest))"

definition folders_to_report ::
  "('fs, 'e) lib \<Rightarrow> pystr \<Rightarrow> range list \<Rightarrow> 'fs \<Rightarrow> 'e + (pystr \<times> pystr) list" where
  "folders_to_report lib base_dir ranges fs =
     (case listdir lib base_dir fs of
        Inl e \<Rightarrow> Inl e
      | Inr entries \<Rightarrow> folders_to_report_loop lib base_dir ranges fs entries)"

section \<open>A small file system for the examples\<close>

text \<open>
  The examples of this theory run the engines on a concrete file system: the list of
  its entries, each with the path of the directory that holds it, its name, and whether
  it is a directory, in the order in which \<open>os.listdir\<close> gives them.  Paths are POSIX
  paths.  \<open>shutil.move\<close> into an existing directory moves the source inside it and
  raises when the name is taken there; \<open>os.makedirs\<close> with \<open>exist_ok\<close> raises only on a
  file of that name.
\<close>

datatype os_error = FileExistsError | DestinationExists

type_synonym dir_tree = "(pystr \<times> pystr \<times> bool) list"

definition posix_join :: "pystr \<Rightarrow> pystr \<Rightarrow> pystr" where
  "posix_join a b = a @ [47] @ b"

definition posix_basename :: "pystr \<Rightarrow> pystr" where
  "posix_basename p = rev (takeWhile (\<lambda>c. c \<noteq> 47) (rev p))"

definition posix_dirname :: "pystr \<Rightarrow> pystr" where
  "posix_dirname p = rev (drop 1 (dropWhile (\<lambda>c. c \<noteq> 47) (rev p)))"

definition tree_exists :: "pystr \<Rightarrow> dir_tree \<Rightarrow> bool" where
  "tree_exists p fs = list_ex (\<lambda>(d, n, k). posix_join d n = p) fs"

definition tree_isdir :: "pystr \<Rightarrow> dir_tree \<Rightarrow> bool" where
  "tree_isdir p fs = list_ex (\<lambda>(d, n, k). k \<and> posix_join d n = p) fs"

definition tree_listdir :: "pystr \<Rightarrow> dir_tree \<Rightarrow> os_error + pystr list" where
  "tree_listdir p fs = Inr (map (\<lambda>(d, n, k). n) (filter (\<lambda>(d, n, k). d = p) fs))"

definition tree_makedirs :: "pystr \<Rightarrow> dir_tree \<Rightarrow> os_error option \<times> dir_tree" where
  "tree_makedirs p fs =
     (if tree_isdir p fs then (None, fs)
      else if tree_exists p fs then (Some FileExistsError, fs)
      else (None, fs @ [(posix_dirname p, posix_basename p, True)]))"

definition moved :: "pystr \<Rightarrow> pystr \<times> pystr \<times> bool \<Rightarrow> bool" where
  "moved src entry = (case entry of (d, n, k) \<Rightarrow>
     posix_join d n = src \<or> take (length src + 1) (d @ [47]) = src @ [47])"

definition tree_move :: "pystr \<Rightarrow> pystr \<Rightarrow> dir_tree \<Rightarrow> os_error option \<times> dir_tree" where
  "tree_move src dst fs =
     (if src = dst then (None, fs)
      else if tree_exists (posix_join dst (posix_basename src)) fs
      then (Some DestinationExists, fs)
      else
        (None,
         filter (\<lambda>entry. \<not> moved src entry) fs @
         map (\<lambda>(d, n, k). (dst @ drop (length (posix_dirname src)) d, n, k))
           (filter (moved src) fs)))"

definition py_lib :: "(dir_tree, os_error) lib" where
  "py_lib = \<lparr>join = posix_join, basename = posix_basename, listdir = tree_listdir,
             isdir = tree_isdir, makedirs = tree_makedirs, move = tree_move,
             matcher_ratio = ratio\<rparr>"

text \<open>The ranges, and three directory trees under \<open>/base\<close>, of the examples.\<close>

definition example_ranges :: "range list" where
  "example_ranges = [(Fin 0, Fin 500, str_of ''Small''), (Fin 500, PosInf, str_of ''Big'')]"

definition example_tree :: dir_tree where
  "example_tree =
     [(str_of ''/base'', str_of ''notes'', True),
      (str_of ''/base'', str_of ''Alpha Projekt'', True),
      (str_of ''/base'', str_of ''Alpha_Project'', True),
      (str_of ''/base'', str_of ''list.xlsx'', False)]"

definition example_tree_taken :: dir_tree where
  "example_tree_taken =
     [(str_of ''/base'', str_of ''notes'', True),
      (str_of ''/base'', str_of ''Alpha_Project'', True),
      (str_of ''/base'', str_of ''Small'', True),
      (str_of ''/base/Small'', str_of ''Alpha_Project'', True),
      (str_of ''/base'', str_of ''list'', True)]"


definition example_tree_buckets :: dir_tree where
  "example_tree_buckets =
     [(str_of ''/base'', str_of ''Small'', True),
      (str_of ''/base/Small'', str_of ''Beta'', True),
      (str_of ''/base'', str_of ''Big'', True)]"

definition example_tree_report :: dir_tree where
  "example_tree_report =
     [(str_of ''/base'', str_of ''Alpha Project'', True),
      (str_of ''/base'', str_of ''Small'', True),
      (str_of ''/base/Small'', str_of ''Gamma'', True),
      (str_of ''/base'', str_of ''list.xlsx'', False)]"

section \<open>The similarity ratio: range and identical strings\<close>

lemma sizes_simps [simp]:
  "sizes [] = 0" "sizes ((i, j, k) # bs) = k + sizes bs" "sizes (bs @ cs) = sizes bs + sizes cs"
  by (simp_all add: sizes_def)

lemma sizes_insort: "sizes (insort x bs) = sizes [x] + sizes bs"
  by (induction bs) (auto simp: sizes_def)

lemma sizes_sort: "sizes (sort bs) = sizes bs"
proof (induction bs)
  case Nil
  then show ?case by simp
next
  case (Cons x bs)
  obtain i j k where x: "x = (i, j, k)" by (cases x) auto
  show ?case using Cons by (simp add: sizes_insort x)
qed

lemma sizes_collapse_loop:
  "collapse_loop bs (i1, j1, k1) non_adjacent = ((i', j', k'), na') \<Longrightarrow>
   sizes na' + k' = sizes non_adjacent + k1 + sizes bs"
proof (induction bs "(i1, j1, k1)" non_adjacent arbitrary: i1 j1 k1
    rule: collapse_loop.induct)
  case (1 non_adjacent)
  then show ?case by simp
next
  case (2 i2 j2 k2 rest i1 j1 k1 non_adjacent)
  show ?case
  proof (cases "i1 + k1 = i2 \<and> j1 + k1 = j2")
    case True
    with "2.prems" have "collapse_loop rest (i1, j1, k1 + k2) non_adjacent = ((i', j', k'), na')"
      by simp
    from "2.hyps"(1) [OF True this] show ?thesis by simp
  next
    case False
    let ?na = "if k1 \<noteq> 0 then non_adjacent @ [(i1, j1, k1)] else non_adjacent"
    from False "2.prems" have "collapse_loop rest (i2, j2, k2) ?na = ((i', j', k'), na')"
      by (auto split: if_splits)
    from "2.hyps"(2) [OF False this] show ?thesis by (simp split: if_splits)
  qed
qed

lemma sizes_get_matching_blocks:
  "sizes (get_matching_blocks a b) = sizes (gmb_loop a b [(0, length a, 0, length b)] [])"
proof -
  let ?mb = "sort (gmb_loop a b [(0, length a, 0, length b)] [])"
  obtain i' j' k' na' where c: "collapse_loop ?mb (0, 0, 0) [] = ((i', j', k'), na')"
    by (metis prod.exhaust)
  from sizes_collapse_loop [OF c] have "sizes na' + k' = sizes ?mb" by simp
  then show ?thesis
    by (simp add: get_matching_blocks_def Let_def c sizes_sort)
qed

lemma ratio_sizes:
  "ratio a b = calculate_ratio (sizes (gmb_loop a b [(0, length a, 0, length b)] []))
     (length a + length b)"
  using sizes_get_matching_blocks [of a b] by (simp add: ratio_def sizes_def)

lemma gmb_loop_sizes_le:
  "sizes (gmb_loop a b queue matching_blocks) \<le>
     sizes matching_blocks
     + sum_list (map (\<lambda>(alo, ahi, blo, bhi). min (ahi - alo) (bhi - blo)) queue)"
proof (induction a b queue matching_blocks rule: gmb_loop.induct)
  case (1 a b matching_blocks)
  then show ?case by simp
next
  case (2 a b alo ahi blo bhi queue matching_blocks)
  obtain i j k where flm: "find_longest_match a b alo ahi blo bhi = (i, j, k)"
    by (metis prod.exhaust)
  show ?case
  proof (cases "k = 0")
    case True
    with "2.IH"(2) [OF flm [symmetric] refl] flm show ?thesis
      by (simp add: gmb_loop.simps(2))
  next
    case False
    then have k: "0 < k" by simp
    from find_longest_match_bounds [OF flm k]
    have b: "alo \<le> i" "i + k \<le> ahi" "blo \<le> j" "j + k \<le> bhi" by simp_all
    let ?q = "(if i + k < ahi \<and> j + k < bhi then [(i + k, ahi, j + k, bhi)] else []) @
              (if alo < i \<and> blo < j then [(alo, i, blo, j)] else []) @ queue"
    have "sizes (gmb_loop a b ((alo, ahi, blo, bhi) # queue) matching_blocks)
        = sizes (gmb_loop a b ?q (matching_blocks @ [(i, j, k)]))"
      using flm False by (simp add: gmb_loop.simps(2))
    also have "\<dots> \<le> sizes (matching_blocks @ [(i, j, k)])
        + sum_list (map (\<lambda>(alo, ahi, blo, bhi). min (ahi - alo) (bhi - blo)) ?q)"
      using "2.IH"(1) [OF flm [symmetric] refl False] by simp
    also have "\<dots> \<le> sizes matching_blocks
        + sum_list (map (\<lambda>(alo, ahi, blo, bhi). min (ahi - alo) (bhi - blo))
            ((alo, ahi, blo, bhi) # queue))"
      using b by auto
    finally show ?thesis .
  qed
qed

text \<open>
  C8, amended.  For all strings the similarity lies between 0 and 1: the matching blocks
  lie side by side in both strings, so their total length is at most the length of
  either.  Nothing is said of the order of the arguments.
\<close>

theorem ratio_range: "0 \<le> ratio a b \<and> ratio a b \<le> 1"
proof -
  define M where "M = sizes (gmb_loop a b [(0, length a, 0, length b)] [])"
  define T where "T = length a + length b"
  have ratio: "ratio a b = calculate_ratio M T"
    by (simp add: ratio_sizes M_def T_def)
  have "M \<le> min (length a) (length b)"
    using gmb_loop_sizes_le [of a b "[(0, length a, 0, length b)]" "[]"] by (simp add: M_def)
  then have le: "2 * M \<le> T" by (simp add: T_def)
  show ?thesis
  proof (cases "T = 0")
    case True
    then show ?thesis by (simp add: ratio calculate_ratio_def)
  next
    case False
    then have pos: "(0::rat) < of_nat T" by simp
    have "(2 * of_nat M :: rat) = of_nat (2 * M)" by simp
    also have "\<dots> \<le> of_nat T" using le by (simp only: of_nat_le_iff)
    finally have "(2 * of_nat M :: rat) / of_nat T \<le> 1"
      using pos by (simp add: divide_le_eq)
    moreover have "(0::rat) \<le> 2 * of_nat M / of_nat T" by simp
    ultimately show ?thesis using False by (simp add: ratio calculate_ratio_def)
  qed
qed

text \<open>
  C8, as stated: the similarity does not depend on the order of its arguments.  It does:
  for \<open>tide\<close> and \<open>diet\<close> the first longest block is \<open>t\<close> one way round, with nothing
  left to match on either side of it, and \<open>d\<close> the other way round, with \<open>e\<close> still to
  match after it.
\<close>

theorem ratio_not_symmetric_counterexample:
  "ratio (str_of ''tide'') (str_of ''diet'') = 1 / 4
   \<and> ratio (str_of ''diet'') (str_of ''tide'') = 1 / 2
   \<and> ratio (str_of ''tide'') (str_of ''diet'') \<noteq> ratio (str_of ''diet'') (str_of ''tide'')"
  by code_simp

lemma dlen_sym:
  assumes "\<And>i j. M i j \<longleftrightarrow> M j i"
  shows "dlen M i j = dlen M j i"
proof (induction i arbitrary: j)
  case 0
  then show ?case using assms [of 0 j] by (cases j) simp_all
next
  case (Suc i)
  show ?case
  proof (cases j)
    case 0
    then show ?thesis using assms [of "Suc i" 0] by simp
  next
    case (Suc j')
    then show ?thesis using assms [of "Suc i" "Suc j'"] Suc.IH [of j'] by simp
  qed
qed

lemma main_loop_diag:
  assumes "ahi \<le> length a"
  shows "fst (main_loop a a alo ahi alo ahi) = fst (snd (main_loop a a alo ahi alo ahi))"
proof -
  define M where "M = anchor (b2j a) a alo ahi alo ahi"
  have M_iff: "M i j \<longleftrightarrow> alo \<le> i \<and> i < ahi \<and> alo \<le> j \<and> j < ahi
      \<and> \<not> bpopular a (a ! i) \<and> a ! j = a ! i" for i j
    using assms by (auto simp: M_def anchor_def mem_b2j)
  have sym: "M i j \<longleftrightarrow> M j i" for i j
    by (auto simp: M_iff)
  have diag: "M i j \<Longrightarrow> M i i" for i j
    by (simp add: M_iff)
  from main_loop_spec [OF M_def] show ?thesis
  proof (elim disjE exE conjE)
    assume "main_loop a a alo ahi alo ahi = (alo, alo, 0)"
    then show ?thesis by simp
  next
    fix i j
    assume Mij: "M i j"
      and res: "main_loop a a alo ahi alo ahi = (Suc i - dlen M i j, Suc j - dlen M i j, dlen M i j)"
      and max: "\<forall>i' j'. M i' j' \<longrightarrow> dlen M i' j' \<le> dlen M i j"
      and first: "\<forall>i' j'. M i' j' \<and> lexlt (i', j') (i, j) \<longrightarrow> dlen M i' j' < dlen M i j"
    have "dlen M i j \<le> dlen M i i"
    proof (rule dlen_ge)
      show "dlen M i j \<le> Suc i" "dlen M i j \<le> Suc i" using dlen_le [of M i j] by simp_all
      fix t assume "t < dlen M i j"
      from dlen_anchor [OF this] show "M (i - t) (i - t)" by (rule diag)
    qed
    moreover have "dlen M i i \<le> dlen M i j" using max diag [OF Mij] by blast
    ultimately have eq: "dlen M i i = dlen M i j" by simp
    have "\<not> i < j"
    proof
      assume "i < j"
      then have "lexlt (i, i) (i, j)" by (simp add: lexlt_def)
      with first diag [OF Mij] have "dlen M i i < dlen M i j" by blast
      with eq show False by simp
    qed
    moreover have "\<not> j < i"
    proof
      assume "j < i"
      then have "lexlt (j, i) (i, j)" by (simp add: lexlt_def)
      moreover have "M j i" using Mij sym by blast
      ultimately have "dlen M j i < dlen M i j" using first by blast
      with dlen_sym [of M j i] sym show False by simp
    qed
    ultimately have "i = j" by simp
    with res show ?thesis by simp
  qed
qed

lemma find_longest_match_diag:
  assumes "alo \<le> ahi" "ahi \<le> length a"
  shows "find_longest_match a a alo ahi alo ahi = (alo, alo, ahi - alo)"
proof -
  obtain bi bj bk where main: "main_loop a a alo ahi alo ahi = (bi, bj, bk)"
    by (metis prod.exhaust)
  from main_loop_diag [OF assms(2), of alo] main have bj: "bj = bi" by simp
  from main_loop_bounds [OF main] assms(1) have bounds: "alo \<le> bi" "bi + bk \<le> ahi"
    using bj by auto
  from extend_left_spec [of a a alo alo bi bi bk] obtain t where
    left: "extend_left False a a alo alo (bi, bi, bk) = (bi - t, bi - t, bk + t)"
      and t: "t \<le> bi - alo" "\<not> (alo < bi - t \<and> alo < bi - t \<and> a ! (bi - t - 1) = a ! (bi - t - 1))"
    by blast
  from t bounds have t_eq: "bi - t = alo" "bk + t = bi + bk - alo" by auto
  from extend_right_spec [of a a ahi ahi alo alo "bi + bk - alo"] obtain u where
    right: "extend_right False a a ahi ahi (alo, alo, bi + bk - alo) = (alo, alo, bi + bk - alo + u)"
      and u: "u = 0 \<or> alo + (bi + bk - alo) + u \<le> ahi \<and> alo + (bi + bk - alo) + u \<le> ahi"
        "\<not> (alo + (bi + bk - alo) + u < ahi \<and> alo + (bi + bk - alo) + u < ahi
            \<and> a ! (alo + (bi + bk - alo) + u) = a ! (alo + (bi + bk - alo) + u))"
    by blast
  from u bounds have "bi + bk - alo + u = ahi - alo" by auto
  then show ?thesis
    by (simp add: find_longest_match_main main bj left t_eq right)
qed

text \<open>
  C4.  The similarity of a string with itself is 1.0, for the empty string by
  \<open>_calculate_ratio\<close> and otherwise because the whole string is one matching block,
  also when \<open>__chain_b\<close> has dropped popular characters (200 characters or more): the
  two extension loops of \<open>find_longest_match\<close> then grow the block along the diagonal.
\<close>

theorem ratio_identical: "ratio a a = 1"
proof (cases "a = []")
  case True
  have "find_longest_match a a 0 0 0 0 = (0, 0, 0)"
    using find_longest_match_diag [of 0 0 a] by simp
  then show ?thesis using True
    by (simp add: ratio_sizes calculate_ratio_def gmb_loop.simps(2))
next
  case False
  have "find_longest_match a a 0 (length a) 0 (length a) = (0, 0, length a)"
    using find_longest_match_diag [of 0 "length a" a] by simp
  then have "gmb_loop a a [(0, length a, 0, length a)] [] = [(0, 0, length a)]"
    using False by (simp add: gmb_loop.simps(2))
  then show ?thesis using False
    by (simp add: ratio_sizes calculate_ratio_def)
qed

section \<open>Range validation: properties\<close>

lemma get_ranges_loop_count:
  "get_ranges_loop ucd entries ranges errors = Inr (rs, es) \<Longrightarrow>
   length rs + length es = length ranges + length errors + length entries"
proof (induction ucd entries ranges errors rule: get_ranges_loop.induct)
  case (1 ucd ranges errors)
  then show ?case by simp
next
  case (2 ucd min_val max_val dir_name rest ranges errors)
  then show ?case
    by (auto split: if_splits sum.splits)
qed

text \<open>When \<open>get_ranges\<close> returns, every entry has given one range or one message.\<close>

lemma get_ranges_count:
  "get_ranges ucd entries = Inr (rs, es) \<Longrightarrow> length rs + length es = length entries"
  using get_ranges_loop_count [of ucd entries "[]" "[]" rs es]
  by (simp add: get_ranges_def)

text \<open>
  C5.  The claim is that for every list of triples the call returns the pair
  \<open>(ranges, errors)\<close>.  The text \<open>"\<twosuperior>"\<close> (U+00B2) passes \<open>isdigit\<close>, and \<open>int\<close> then
  raises ValueError, which \<open>get_ranges\<close> does not catch: the call returns no pair.
\<close>

theorem get_ranges_superscript_raises:
  "get_ranges ucd_latin1 [([178], str_of ''5'', str_of ''A'')] = Inl ValueError"
  by (simp add: get_ranges_def isdigit_def py_int_def ucd_latin1_def str_of_def)

text \<open>
  C9.  The claim is that every triple gives one range or one error message, so that the
  two returned lists together are as long as the input.  With a valid first triple and
  \<open>"\<twosuperior>"\<close> as the minimum of the second, the exception of \<open>int\<close> discards the range that the
  first triple had already given: no outcome is returned for either triple.
\<close>

theorem get_ranges_outcomes_lost:
  "get_ranges ucd_latin1
     [(str_of ''0'', str_of ''500'', str_of ''A''), ([178], str_of ''5'', str_of ''B'')]
   = Inl ValueError"
  by (simp add: get_ranges_def isdigit_def py_int_def ucd_latin1_def str_of_def py_ge_def)

section \<open>Bucketizer\<close>

lemma in_range_simp [simp]:
  "in_range (min_size, max_size, dir_name) sz = (py_le min_size sz \<and> py_lt sz max_size)"
  by (simp add: in_range_def)

lemma get_target_dir_report_first:
  "list_all (\<lambda>r. \<not> in_range r sz) pre \<Longrightarrow> in_range (min_size, max_size, dir_name) sz \<Longrightarrow>
   get_target_dir_report (pre @ (min_size, max_size, dir_name) # post) sz = dir_name"
  by (induction pre) auto

lemma get_target_dir_report_none:
  "list_all (\<lambda>r. \<not> in_range r sz) ranges \<Longrightarrow> get_target_dir_report ranges sz = unclassified"
  by (induction ranges) auto

lemma get_target_dir_classify_first:
  "list_all (\<lambda>r. \<not> in_range r sz) pre \<Longrightarrow> in_range (min_size, max_size, dir_name) sz \<Longrightarrow>
   get_target_dir_classify lib base_dir (pre @ (min_size, max_size, dir_name) # post) sz
     = Some (join lib base_dir dir_name)"
  by (induction pre) auto

lemma get_target_dir_classify_none:
  "list_all (\<lambda>r. \<not> in_range r sz) ranges \<Longrightarrow>
   get_target_dir_classify lib base_dir ranges sz = None"
  by (induction ranges) auto

lemma run_step_no_target:
  "get_target_dir_classify lib base_dir ranges sz = None \<Longrightarrow>
   snd (run_step lib base_dir ranges (name, Some sz) fs) = fs"
  by (simp add: run_step_def split: sum.splits option.splits)

text \<open>
  C7.  The label is that of the first range of the list with \<open>min <= size < max\<close>: in
  report mode \<open>_get_target_dir\<close> returns it, in classify mode it returns the path of that
  label under the base directory.  When no range holds the size, report mode returns the
  literal "unclassified", classify mode returns None and the step of \<open>run\<close> for that row
  leaves the file system as it was (nothing is created, nothing is moved).
\<close>

theorem bucketizer_first_match:
  "(ranges = pre @ (min_size, max_size, dir_name) # post
      \<and> list_all (\<lambda>r. \<not> in_range r sz) pre \<and> in_range (min_size, max_size, dir_name) sz
    \<longrightarrow> get_target_dir_report ranges sz = dir_name
        \<and> get_target_dir_classify lib base_dir ranges sz = Some (join lib base_dir dir_name))
   \<and> (list_all (\<lambda>r. \<not> in_range r sz) ranges
    \<longrightarrow> get_target_dir_report ranges sz = unclassified
        \<and> get_target_dir_classify lib base_dir ranges sz = None
        \<and> snd (run_step lib base_dir ranges (name, Some sz) fs) = fs)"
proof (intro conjI impI)
  assume *: "ranges = pre @ (min_size, max_size, dir_name) # post
      \<and> list_all (\<lambda>r. \<not> in_range r sz) pre \<and> in_range (min_size, max_size, dir_name) sz"
  then show "get_target_dir_report ranges sz = dir_name"
    by (simp add: get_target_dir_report_first)
  from * show "get_target_dir_classify lib base_dir ranges sz = Some (join lib base_dir dir_name)"
    by (simp add: get_target_dir_classify_first)
next
  assume *: "list_all (\<lambda>r. \<not> in_range r sz) ranges"
  then show "get_target_dir_report ranges sz = unclassified"
    by (rule get_target_dir_report_none)
  from * show none: "get_target_dir_classify lib base_dir ranges sz = None"
    by (rule get_target_dir_classify_none)
  show "snd (run_step lib base_dir ranges (name, Some sz) fs) = fs"
    by (rule run_step_no_target [OF none])
qed

theorem bucketizer_first_match_witness:
  "example_ranges = [(Fin 0, Fin 500, str_of ''Small'')] @ (Fin 500, PosInf, str_of ''Big'') # []
   \<and> list_all (\<lambda>r. \<not> in_range r (Fin 100000)) [(Fin 0, Fin 500, str_of ''Small'')]
   \<and> in_range (Fin 500, PosInf, str_of ''Big'') (Fin 100000)
   \<and> get_target_dir_report example_ranges (Fin 100000) = str_of ''Big''
   \<and> get_target_dir_classify py_lib (str_of ''/base'') example_ranges (Fin 100000)
       = Some (str_of ''/base/Big'')
   \<and> list_all (\<lambda>r. \<not> in_range r NaN) example_ranges
   \<and> get_target_dir_report example_ranges NaN = unclassified
   \<and> get_target_dir_classify py_lib (str_of ''/base'') example_ranges NaN = None
   \<and> snd (run_step py_lib (str_of ''/base'') example_ranges (str_of ''Alpha_Project'', Some NaN)
            example_tree) = example_tree"
proof -
  have 1: "example_ranges = [(Fin 0, Fin 500, str_of ''Small'')] @ (Fin 500, PosInf, str_of ''Big'') # []"
    by (simp add: example_ranges_def)
  have 2: "list_all (\<lambda>r. \<not> in_range r (Fin 100000)) [(Fin 0, Fin 500, str_of ''Small'')]"
    by (simp add: in_range_def)
  have 3: "in_range (Fin 500, PosInf, str_of ''Big'') (Fin 100000)"
    by (simp add: in_range_def)
  have 4: "list_all (\<lambda>r. \<not> in_range r NaN) example_ranges"
    by (simp add: in_range_def example_ranges_def)
  have 5: "join py_lib (str_of ''/base'') (str_of ''Big'') = str_of ''/base/Big''"
    by (simp add: py_lib_def posix_join_def str_of_def)
  show ?thesis
    using 1 2 3 4 5
      bucketizer_first_match [of example_ranges "[(Fin 0, Fin 500, str_of ''Small'')]" "Fin 500"
        PosInf "str_of ''Big''" "[]" "Fin 100000" py_lib "str_of ''/base''"]
      bucketizer_first_match [of example_ranges _ _ _ _ _ NaN py_lib "str_of ''/base''"
        "str_of ''Alpha_Project''" example_tree]
    by simp
qed

section \<open>ClassifyEngine\<close>

lemma find_project_folder_loop_first:
  "list_all (\<lambda>f. \<not> over_threshold lib base_dir fs project_name f) pre \<Longrightarrow>
   over_threshold lib base_dir fs project_name folder \<Longrightarrow>
   find_project_folder_loop lib base_dir fs project_name (pre @ folder # post)
     = Some (join lib base_dir folder)"
  by (induction pre) (auto simp: over_threshold_def Let_def)

lemma find_project_folder_loop_none:
  "list_all (\<lambda>f. \<not> over_threshold lib base_dir fs project_name f) folders \<Longrightarrow>
   find_project_folder_loop lib base_dir fs project_name folders = None"
  by (induction folders) (auto simp: over_threshold_def Let_def)

text \<open>
  C3.  For a record, \<open>_find_project_folder\<close> returns the first entry of the listing of
  the base directory that is a directory and whose similarity with the record's name
  is above 0.8, whatever comes after it in the listing.  When no entry passes the test,
  it returns None and the step of \<open>run\<close> for the record ends without an exception and
  with the file system as it was: as the theorem holds for every \<open>makedirs\<close> and
  \<open>move\<close>, neither is called.
\<close>

theorem first_over_threshold:
  assumes "listdir lib base_dir fs = Inr folders"
  shows "(folders = pre @ folder # post
            \<and> list_all (\<lambda>f. \<not> over_threshold lib base_dir fs project_name f) pre
            \<and> over_threshold lib base_dir fs project_name folder
          \<longrightarrow> find_project_folder lib base_dir fs project_name
                = Inr (Some (join lib base_dir folder)))
       \<and> (list_all (\<lambda>f. \<not> over_threshold lib base_dir fs project_name f) folders
          \<longrightarrow> find_project_folder lib base_dir fs project_name = Inr None
              \<and> run_step lib base_dir ranges (project_name, sz) fs = (None, fs))"
proof (intro conjI impI)
  assume "folders = pre @ folder # post
            \<and> list_all (\<lambda>f. \<not> over_threshold lib base_dir fs project_name f) pre
            \<and> over_threshold lib base_dir fs project_name folder"
  then show "find_project_folder lib base_dir fs project_name = Inr (Some (join lib base_dir folder))"
    using assms find_project_folder_loop_first [of lib base_dir fs project_name pre folder post]
    by (simp add: find_project_folder_def)
next
  assume none: "list_all (\<lambda>f. \<not> over_threshold lib base_dir fs project_name f) folders"
  then show *: "find_project_folder lib base_dir fs project_name = Inr None"
    using assms find_project_folder_loop_none [of lib base_dir fs project_name folders]
    by (simp add: find_project_folder_def)
  show "run_step lib base_dir ranges (project_name, sz) fs = (None, fs)"
    by (simp add: run_step_def * split: option.splits)
qed

lemma ex_ratio_1: "ratio (str_of ''Alpha_Project'') (str_of ''notes'') = 2 / 9" by code_simp
lemma ex_ratio_2: "ratio (str_of ''Alpha_Project'') (str_of ''Alpha Projekt'') = 11 / 13" by code_simp
lemma ex_ratio_3: "ratio (str_of ''Alpha_Project'') (str_of ''Alpha_Project'') = 1" by code_simp

theorem first_over_threshold_witness:
  "listdir py_lib (str_of ''/base'') example_tree
     = Inr [str_of ''notes'', str_of ''Alpha Projekt'', str_of ''Alpha_Project'', str_of ''list.xlsx'']
   \<and> [str_of ''notes'', str_of ''Alpha Projekt'', str_of ''Alpha_Project'', str_of ''list.xlsx'']
       = [str_of ''notes''] @ str_of ''Alpha Projekt'' # [str_of ''Alpha_Project'', str_of ''list.xlsx'']
   \<and> list_all (\<lambda>f. \<not> over_threshold py_lib (str_of ''/base'') example_tree (str_of ''Alpha_Project'') f)
         [str_of ''notes'']
   \<and> over_threshold py_lib (str_of ''/base'') example_tree (str_of ''Alpha_Project'')
         (str_of ''Alpha Projekt'')
   \<and> find_project_folder py_lib (str_of ''/base'') example_tree (str_of ''Alpha_Project'')
       = Inr (Some (str_of ''/base/Alpha Projekt''))
   \<and> listdir py_lib (str_of ''/base'') [(str_of ''/base'', str_of ''notes'', True)]
       = Inr [str_of ''notes'']
   \<and> list_all (\<lambda>f. \<not> over_threshold py_lib (str_of ''/base'')
                       [(str_of ''/base'', str_of ''notes'', True)] (str_of ''Alpha_Project'') f)
         [str_of ''notes'']
   \<and> find_project_folder py_lib (str_of ''/base'') [(str_of ''/base'', str_of ''notes'', True)]
         (str_of ''Alpha_Project'') = Inr None
   \<and> run_step py_lib (str_of ''/base'') example_ranges (str_of ''Alpha_Project'', Some (Fin 300))
         [(str_of ''/base'', str_of ''notes'', True)]
       = (None, [(str_of ''/base'', str_of ''notes'', True)])"
proof -
  let ?folders = "[str_of ''notes'', str_of ''Alpha Projekt'', str_of ''Alpha_Project'', str_of ''list.xlsx'']"
  have 1: "listdir py_lib (str_of ''/base'') example_tree = Inr ?folders"
    by (simp add: py_lib_def tree_listdir_def example_tree_def)
  have 2: "list_all (\<lambda>f. \<not> over_threshold py_lib (str_of ''/base'') example_tree (str_of ''Alpha_Project'') f)
         [str_of ''notes'']"
    by code_simp
  have 3: "over_threshold py_lib (str_of ''/base'') example_tree (str_of ''Alpha_Project'')
         (str_of ''Alpha Projekt'')"
    by code_simp
  have 4: "join py_lib (str_of ''/base'') (str_of ''Alpha Projekt'') = str_of ''/base/Alpha Projekt''"
    by (simp add: py_lib_def posix_join_def str_of_def)
  have 5: "listdir py_lib (str_of ''/base'') [(str_of ''/base'', str_of ''notes'', True)]
       = Inr [str_of ''notes'']"
    by (simp add: py_lib_def tree_listdir_def)
  have 6: "list_all (\<lambda>f. \<not> over_threshold py_lib (str_of ''/base'')
                       [(str_of ''/base'', str_of ''notes'', True)] (str_of ''Alpha_Project'') f)
         [str_of ''notes'']"
    by code_simp
  show ?thesis
    using 2 3 4 6
      first_over_threshold [OF 1, of "[str_of ''notes'']" "str_of ''Alpha Projekt''"
        "[str_of ''Alpha_Project'', str_of ''list.xlsx'']" "str_of ''Alpha_Project''"]
      first_over_threshold [OF 5, of _ _ _ "str_of ''Alpha_Project''" example_ranges "Some (Fin 300)"]
    by (simp add: 1 5)
qed

lemma run_append:
  "run lib base_dir ranges (rows @ rows') fs =
     (case run lib base_dir ranges rows fs of
        (Some e, fs') \<Rightarrow> (Some e, fs')
      | (None, fs') \<Rightarrow> run lib base_dir ranges rows' fs')"
  by (induction rows arbitrary: fs) (auto split: prod.splits option.splits)

text \<open>
  C6.  When \<open>shutil.move\<close> raises for a record, \<open>run\<close> ends with that exception: the
  records after it are not processed, whatever they are, and the file system is the one
  the failed call left, built on the moves of the records before it (no rollback).
\<close>

theorem move_failure_ends_run:
  assumes "run lib base_dir ranges processed fs = (None, fs1)"
    and "find_project_folder lib base_dir fs1 name = Inr (Some folder_path)"
    and "folder_path \<noteq> []"
    and "get_target_dir_classify lib base_dir ranges sz = Some target_dir"
    and "target_dir \<noteq> []"
    and "makedirs lib target_dir fs1 = (None, fs2)"
    and "move lib folder_path target_dir fs2 = (Some e, fs3)"
  shows "run lib base_dir ranges (processed @ (name, Some sz) # remaining) fs = (Some e, fs3)"
proof -
  have "run_step lib base_dir ranges (name, Some sz) fs1 = (Some e, fs3)"
    using assms(2-7) by (simp add: run_step_def)
  then show ?thesis using assms(1) by (simp add: run_append)
qed

theorem move_failure_ends_run_witness:
  "run py_lib (str_of ''/base'') example_ranges [(str_of ''notes'', Some (Fin 700))] example_tree_taken
     = (None,
        [(str_of ''/base'', str_of ''Alpha_Project'', True),
         (str_of ''/base'', str_of ''Small'', True),
         (str_of ''/base/Small'', str_of ''Alpha_Project'', True),
         (str_of ''/base'', str_of ''list'', True),
         (str_of ''/base'', str_of ''Big'', True),
         (str_of ''/base/Big'', str_of ''notes'', True)])
   \<and> run py_lib (str_of ''/base'') example_ranges
         ([(str_of ''notes'', Some (Fin 700))] @ (str_of ''Alpha_Project'', Some (Fin 300))
            # [(str_of ''list'', Some (Fin 20))]) example_tree_taken
     = (Some DestinationExists,
        [(str_of ''/base'', str_of ''Alpha_Project'', True),
         (str_of ''/base'', str_of ''Small'', True),
         (str_of ''/base/Small'', str_of ''Alpha_Project'', True),
         (str_of ''/base'', str_of ''list'', True),
         (str_of ''/base'', str_of ''Big'', True),
         (str_of ''/base/Big'', str_of ''notes'', True)])"
proof -
  let ?fs1 = "[(str_of ''/base'', str_of ''Alpha_Project'', True),
         (str_of ''/base'', str_of ''Small'', True),
         (str_of ''/base/Small'', str_of ''Alpha_Project'', True),
         (str_of ''/base'', str_of ''list'', True),
         (str_of ''/base'', str_of ''Big'', True),
         (str_of ''/base/Big'', str_of ''notes'', True)]"
  have 1: "run py_lib (str_of ''/base'') example_ranges [(str_of ''notes'', Some (Fin 700))]
             example_tree_taken = (None, ?fs1)"
    by code_simp
  have 2: "find_project_folder py_lib (str_of ''/base'') ?fs1 (str_of ''Alpha_Project'')
             = Inr (Some (str_of ''/base/Alpha_Project''))"
    by code_simp
  have 3: "str_of ''/base/Alpha_Project'' \<noteq> []" by code_simp
  have 4: "get_target_dir_classify py_lib (str_of ''/base'') example_ranges (Fin 300)
             = Some (str_of ''/base/Small'')"
    by code_simp
  have 5: "str_of ''/base/Small'' \<noteq> []" by code_simp
  have 6: "makedirs py_lib (str_of ''/base/Small'') ?fs1 = (None, ?fs1)" by code_simp
  have 7: "move py_lib (str_of ''/base/Alpha_Project'') (str_of ''/base/Small'') ?fs1
             = (Some DestinationExists, ?fs1)"
    by code_simp
  from move_failure_ends_run [OF 1 2 3 4 5 6 7, of "[(str_of ''list'', Some (Fin 20))]"] 1
  show ?thesis by simp
qed

text \<open>
  C10.  The search of \<open>_find_project_folder\<close> does not look at the ranges: an entry of
  the listing that is one of the category directories is matched like any other, and
  \<open>run\<close> then moves it into the target directory of the record's size.
\<close>

theorem bucket_directory_is_matched_and_moved:
  assumes "listdir lib base_dir fs = Inr (pre @ bucket # post)"
    and "bucket \<in> set (map (\<lambda>(min_size, max_size, dir_name). dir_name) ranges)"
    and "list_all (\<lambda>f. \<not> over_threshold lib base_dir fs project_name f) pre"
    and "over_threshold lib base_dir fs project_name bucket"
    and "join lib base_dir bucket \<noteq> []"
    and "get_target_dir_classify lib base_dir ranges sz = Some target_dir"
    and "target_dir \<noteq> []"
  shows "find_project_folder lib base_dir fs project_name = Inr (Some (join lib base_dir bucket))
       \<and> run_step lib base_dir ranges (project_name, Some sz) fs =
           (case makedirs lib target_dir fs of
              (Some e, fs') \<Rightarrow> (Some e, fs')
            | (None, fs') \<Rightarrow> move lib (join lib base_dir bucket) target_dir fs')"
proof -
  have *: "find_project_folder lib base_dir fs project_name = Inr (Some (join lib base_dir bucket))"
    using assms(1,3,4) find_project_folder_loop_first [of lib base_dir fs project_name pre bucket post]
    by (simp add: find_project_folder_def)
  then show ?thesis using assms(5-7) by (simp add: run_step_def)
qed

theorem bucket_directory_is_matched_and_moved_witness:
  "listdir py_lib (str_of ''/base'') example_tree_buckets
     = Inr ([] @ str_of ''Small'' # [str_of ''Big''])
   \<and> str_of ''Small'' \<in> set (map (\<lambda>(min_size, max_size, dir_name). dir_name) example_ranges)
   \<and> over_threshold py_lib (str_of ''/base'') example_tree_buckets (str_of ''Small.'') (str_of ''Small'')
   \<and> get_target_dir_classify py_lib (str_of ''/base'') example_ranges (Fin 700)
       = Some (str_of ''/base/Big'')
   \<and> find_project_folder py_lib (str_of ''/base'') example_tree_buckets (str_of ''Small.'')
       = Inr (Some (str_of ''/base/Small''))
   \<and> run_step py_lib (str_of ''/base'') example_ranges (str_of ''Small.'', Some (Fin 700))
         example_tree_buckets
       = (None,
          [(str_of ''/base'', str_of ''Big'', True),
           (str_of ''/base/Big'', str_of ''Small'', True),
           (str_of ''/base/Big/Small'', str_of ''Beta'', True)])"
proof -
  have 1: "listdir py_lib (str_of ''/base'') example_tree_buckets
     = Inr ([] @ str_of ''Small'' # [str_of ''Big''])" by code_simp
  have 2: "str_of ''Small'' \<in> set (map (\<lambda>(min_size, max_size, dir_name). dir_name) example_ranges)"
    by (simp add: example_ranges_def)
  have 3: "list_all (\<lambda>f. \<not> over_threshold py_lib (str_of ''/base'') example_tree_buckets
              (str_of ''Small.'') f) []" by simp
  have 4: "over_threshold py_lib (str_of ''/base'') example_tree_buckets (str_of ''Small.'')
             (str_of ''Small'')" by code_simp
  have 5: "join py_lib (str_of ''/base'') (str_of ''Small'') \<noteq> []" by code_simp
  have 6: "get_target_dir_classify py_lib (str_of ''/base'') example_ranges (Fin 700)
       = Some (str_of ''/base/Big'')" by code_simp
  have 7: "str_of ''/base/Big'' \<noteq> []" by code_simp
  have 8: "join py_lib (str_of ''/base'') (str_of ''Small'') = str_of ''/base/Small''" by code_simp
  have 9: "(case makedirs py_lib (str_of ''/base/Big'') example_tree_buckets of
              (Some e, fs') \<Rightarrow> (Some e, fs')
            | (None, fs') \<Rightarrow> move py_lib (str_of ''/base/Small'') (str_of ''/base/Big'') fs')
       = (None,
          [(str_of ''/base'', str_of ''Big'', True),
           (str_of ''/base/Big'', str_of ''Small'', True),
           (str_of ''/base/Big/Small'', str_of ''Beta'', True)])" by code_simp
  from bucket_directory_is_matched_and_moved [OF 1 2 3 4 5 6 7, unfolded 8] 1 2 4 6 9
  show ?thesis by simp
qed

section \<open>ReportEngine\<close>

lemma find_best_match_loop_spec:
  "find_best_match_loop lib folder projects best_match max_similarity = (bm, ms) \<Longrightarrow>
   (list_all (\<lambda>(n, sz). matcher_ratio lib folder n \<le> max_similarity) (sized projects)
      \<and> bm = best_match \<and> ms = max_similarity) \<or>
   (\<exists>pre n sz post. sized projects = pre @ (n, sz) # post
      \<and> bm = Some (n, sz) \<and> ms = matcher_ratio lib folder n
      \<and> max_similarity < matcher_ratio lib folder n
      \<and> list_all (\<lambda>(n', sz'). matcher_ratio lib folder n' < matcher_ratio lib folder n) pre
      \<and> list_all (\<lambda>(n', sz'). matcher_ratio lib folder n' \<le> matcher_ratio lib folder n) post)"
proof (induction lib folder projects best_match max_similarity rule: find_best_match_loop.induct)
  case (1 lib folder_name best_match max_similarity)
  then show ?case by simp
next
  case (2 lib folder_name name projects best_match max_similarity)
  then show ?case by simp
next
  case (3 lib folder_name name sz projects best_match max_similarity)
  let ?r = "matcher_ratio lib folder_name"
  show ?case
  proof (cases "max_similarity < ?r name")
    case True
    with "3.prems" have run: "find_best_match_loop lib folder_name projects (Some (name, sz)) (?r name)
        = (bm, ms)" by simp
    from "3.IH"(1) [OF True run] show ?thesis
    proof (elim disjE exE conjE)
      assume all: "list_all (\<lambda>(n, sz). ?r n \<le> ?r name) (sized projects)"
        and "bm = Some (name, sz)" "ms = ?r name"
      then have "sized ((name, Some sz) # projects) = [] @ (name, sz) # sized projects
          \<and> bm = Some (name, sz) \<and> ms = ?r name \<and> max_similarity < ?r name
          \<and> list_all (\<lambda>(n', sz'). ?r n' < ?r name) []
          \<and> list_all (\<lambda>(n', sz'). ?r n' \<le> ?r name) (sized projects)"
        using True by simp
      then show ?thesis by blast
    next
      fix pre n sz' post
      assume *: "sized projects = pre @ (n, sz') # post" "bm = Some (n, sz')" "ms = ?r n"
        "?r name < ?r n"
        "list_all (\<lambda>(n', sz'). ?r n' < ?r n) pre" "list_all (\<lambda>(n', sz'). ?r n' \<le> ?r n) post"
      then have "sized ((name, Some sz) # projects) = ((name, sz) # pre) @ (n, sz') # post
          \<and> bm = Some (n, sz') \<and> ms = ?r n \<and> max_similarity < ?r n
          \<and> list_all (\<lambda>(n', sz'). ?r n' < ?r n) ((name, sz) # pre)
          \<and> list_all (\<lambda>(n', sz'). ?r n' \<le> ?r n) post"
        using True by simp
      then show ?thesis by blast
    qed
  next
    case False
    with "3.prems" have run: "find_best_match_loop lib folder_name projects best_match max_similarity
        = (bm, ms)" by simp
    from "3.IH"(2) [OF False run] show ?thesis
    proof (elim disjE exE conjE)
      assume "list_all (\<lambda>(n, sz). ?r n \<le> max_similarity) (sized projects)"
        and "bm = best_match" "ms = max_similarity"
      then show ?thesis using False by simp
    next
      fix pre n sz' post
      assume *: "sized projects = pre @ (n, sz') # post" "bm = Some (n, sz')" "ms = ?r n"
        "max_similarity < ?r n"
        "list_all (\<lambda>(n', sz'). ?r n' < ?r n) pre" "list_all (\<lambda>(n', sz'). ?r n' \<le> ?r n) post"
      then have "sized ((name, Some sz) # projects) = ((name, sz) # pre) @ (n, sz') # post
          \<and> bm = Some (n, sz') \<and> ms = ?r n \<and> max_similarity < ?r n
          \<and> list_all (\<lambda>(n', sz'). ?r n' < ?r n) ((name, sz) # pre)
          \<and> list_all (\<lambda>(n', sz'). ?r n' \<le> ?r n) post"
        using False by simp
      then show ?thesis by blast
    qed
  qed
qed

lemma append_row_acc:
  "append_row lib ranges projects folder location report_data
     = report_data @ append_row lib ranges projects folder location []"
  by (simp add: append_row_def split: prod.splits option.splits)

lemma generate_sub_loop_acc:
  "generate_sub_loop lib ranges projects fs entry entry_path sub_entries report_data =
     report_data @ concat (map (\<lambda>sub_entry. append_row lib ranges projects sub_entry entry [])
       (filter (\<lambda>sub_entry. isdir lib (join lib entry_path sub_entry) fs) sub_entries))"
proof (induction sub_entries arbitrary: report_data)
  case Nil
  then show ?case by simp
next
  case (Cons s rest)
  show ?case
    using append_row_acc [of lib ranges projects s entry report_data]
    by (simp add: Cons.IH)
qed

lemma generate_loop_acc:
  "folders_to_report_loop lib base_dir ranges fs entries = Inr folders \<Longrightarrow>
   generate_loop lib base_dir ranges projects fs entries report_data =
     Inr (report_data @ concat (map (\<lambda>(folder, location).
            append_row lib ranges projects folder location []) folders))"
proof (induction entries arbitrary: report_data folders)
  case Nil
  then show ?case by simp
next
  case (Cons entry rest)
  let ?row = "\<lambda>(folder, location). append_row lib ranges projects folder location []"
  show ?case
  proof (cases "isdir lib (join lib base_dir entry) fs")
    case False
    with Cons show ?thesis by simp
  next
    case True
    show ?thesis
    proof (cases "entry \<in> set (map (\<lambda>(min_size, max_size, dir_name). dir_name) ranges)")
      case bucket: True
      from Cons.prems True bucket obtain sub_entries rest_folders where
        sub: "listdir lib (join lib base_dir entry) fs = Inr sub_entries"
        and rest: "folders_to_report_loop lib base_dir ranges fs rest = Inr rest_folders"
        and folders: "folders = map (\<lambda>sub_entry. (sub_entry, entry))
               (filter (\<lambda>sub_entry. isdir lib (join lib (join lib base_dir entry) sub_entry) fs)
                  sub_entries) @ rest_folders"
        by (auto split: sum.splits simp: map_sum_def)
      have "concat (map ?row (map (\<lambda>sub_entry. (sub_entry, entry))
               (filter (\<lambda>sub_entry. isdir lib (join lib (join lib base_dir entry) sub_entry) fs)
                  sub_entries)))
            = concat (map (\<lambda>sub_entry. append_row lib ranges projects sub_entry entry [])
               (filter (\<lambda>sub_entry. isdir lib (join lib (join lib base_dir entry) sub_entry) fs)
                  sub_entries))"
        by (simp add: comp_def)
      then show ?thesis
        using True bucket sub Cons.IH [OF rest] folders
        by (simp add: generate_sub_loop_acc Let_def del: set_map)
    next
      case other: False
      from Cons.prems True other obtain rest_folders where
        rest: "folders_to_report_loop lib base_dir ranges fs rest = Inr rest_folders"
        and folders: "folders = (entry, basename lib base_dir) # rest_folders"
        by (auto split: sum.splits simp: map_sum_def)
      show ?thesis
        using True other Cons.IH [OF rest] folders
          append_row_acc [of lib ranges projects entry "basename lib base_dir" report_data]
        by (simp add: Let_def del: set_map)
    qed
  qed
qed

text \<open>
  C2, as stated: every folder to report gets exactly one row, also when every score is
  low.  It fails when no record with a size has a positive score: \<open>max_similarity\<close>
  starts at 0.0 and is replaced only by a greater score, \<open>best_match\<close> stays None and
  \<open>if best_match\<close> skips the row.  Here two folders are enumerated and no row is
  appended.
\<close>

theorem report_no_row_counterexample:
  "folders_to_report py_lib (str_of ''/base'') example_ranges example_tree_report
     = Inr [(str_of ''Alpha Project'', str_of ''base''), (str_of ''Gamma'', str_of ''Small'')]
   \<and> generate py_lib (str_of ''/base'') example_ranges [(str_of ''xyz'', Some (Fin 300))]
         example_tree_report = Inr []"
  by code_simp

text \<open>
  C2, amended.  The rows of the report are those of the folders to report, in order, each
  folder giving at most one row: none when no record with a size has a similarity above
  0 with the folder's name, and otherwise one row, which carries the first record of the
  greatest similarity, that similarity, the record's size and category, and the
  folder's location.  There is no other floor on the score.
\<close>

theorem report_row_per_matched_folder:
  assumes "folders_to_report lib base_dir ranges fs = Inr folders"
  shows "generate lib base_dir ranges projects fs =
           Inr (concat (map (\<lambda>(folder, location).
                  append_row lib ranges projects folder location []) folders))
       \<and> (list_all (\<lambda>(n, sz). matcher_ratio lib folder n \<le> 0) (sized projects)
            \<longrightarrow> append_row lib ranges projects folder location [] = [])
       \<and> (list_ex (\<lambda>(n, sz). 0 < matcher_ratio lib folder n) (sized projects)
            \<longrightarrow> (\<exists>pre n sz post. sized projects = pre @ (n, sz) # post
                   \<and> list_all (\<lambda>(n', sz'). matcher_ratio lib folder n' < matcher_ratio lib folder n) pre
                   \<and> list_all (\<lambda>(n', sz'). matcher_ratio lib folder n' \<le> matcher_ratio lib folder n) post
                   \<and> append_row lib ranges projects folder location [] =
                        [\<lparr>folder_name = folder, matched_project = n,
                          score = matcher_ratio lib folder n, project_size = sz,
                          target_category = get_target_dir_report ranges sz,
                          actual_location = location\<rparr>]))"
proof (intro conjI impI)
  from assms obtain entries where
    "listdir lib base_dir fs = Inr entries"
    "folders_to_report_loop lib base_dir ranges fs entries = Inr folders"
    by (auto simp: folders_to_report_def split: sum.splits)
  then show "generate lib base_dir ranges projects fs =
           Inr (concat (map (\<lambda>(folder, location).
                  append_row lib ranges projects folder location []) folders))"
    using generate_loop_acc [of lib base_dir ranges fs entries folders projects "[]"]
    by (simp add: generate_def)
next
  obtain bm ms where loop: "find_best_match_loop lib folder projects None 0 = (bm, ms)"
    by (cases "find_best_match_loop lib folder projects None 0") auto
  assume none: "list_all (\<lambda>(n, sz). matcher_ratio lib folder n \<le> 0) (sized projects)"
  from find_best_match_loop_spec [OF loop] have "bm = None"
  proof (elim disjE exE conjE)
    fix pre n sz post
    assume "sized projects = pre @ (n, sz) # post" "0 < matcher_ratio lib folder n"
    with none show ?thesis by simp
  qed
  then show "append_row lib ranges projects folder location [] = []"
    using loop by (simp add: append_row_def find_best_match_def)
next
  obtain bm ms where loop: "find_best_match_loop lib folder projects None 0 = (bm, ms)"
    by (cases "find_best_match_loop lib folder projects None 0") auto
  assume some: "list_ex (\<lambda>(n, sz). 0 < matcher_ratio lib folder n) (sized projects)"
  from find_best_match_loop_spec [OF loop]
  show "\<exists>pre n sz post. sized projects = pre @ (n, sz) # post
                   \<and> list_all (\<lambda>(n', sz'). matcher_ratio lib folder n' < matcher_ratio lib folder n) pre
                   \<and> list_all (\<lambda>(n', sz'). matcher_ratio lib folder n' \<le> matcher_ratio lib folder n) post
                   \<and> append_row lib ranges projects folder location [] =
                        [\<lparr>folder_name = folder, matched_project = n,
                          score = matcher_ratio lib folder n, project_size = sz,
                          target_category = get_target_dir_report ranges sz,
                          actual_location = location\<rparr>]"
  proof (elim disjE exE conjE)
    assume "list_all (\<lambda>(n, sz). matcher_ratio lib folder n \<le> 0) (sized projects)"
    with some have False
      by (auto simp: list_all_iff list_ex_iff)
    then show ?thesis ..
  next
    fix pre n sz post
    assume *: "sized projects = pre @ (n, sz) # post" "bm = Some (n, sz)"
      "ms = matcher_ratio lib folder n"
      "list_all (\<lambda>(n', sz'). matcher_ratio lib folder n' < matcher_ratio lib folder n) pre"
      "list_all (\<lambda>(n', sz'). matcher_ratio lib folder n' \<le> matcher_ratio lib folder n) post"
    have "append_row lib ranges projects folder location [] =
                        [\<lparr>folder_name = folder, matched_project = n,
                          score = matcher_ratio lib folder n, project_size = sz,
                          target_category = get_target_dir_report ranges sz,
                          actual_location = location\<rparr>]"
      using loop * by (simp add: append_row_def find_best_match_def)
    with * show ?thesis by blast
  qed
qed

theorem report_row_per_matched_folder_witness:
  "folders_to_report py_lib (str_of ''/base'') example_ranges example_tree_report
     = Inr [(str_of ''Alpha Project'', str_of ''base''), (str_of ''Gamma'', str_of ''Small'')]
   \<and> list_all (\<lambda>(n, sz). matcher_ratio py_lib (str_of ''Alpha Project'') n \<le> 0)
         (sized [(str_of ''xyzG'', Some (Fin 300)), (str_of ''Alpha'', None)])
   \<and> list_ex (\<lambda>(n, sz). 0 < matcher_ratio py_lib (str_of ''Gamma'') n)
         (sized [(str_of ''xyzG'', Some (Fin 300)), (str_of ''Alpha'', None)])
   \<and> generate py_lib (str_of ''/base'') example_ranges
         [(str_of ''xyzG'', Some (Fin 300)), (str_of ''Alpha'', None)] example_tree_report
       = Inr [\<lparr>folder_name = str_of ''Gamma'', matched_project = str_of ''xyzG'',
               score = 2 / 9, project_size = Fin 300, target_category = str_of ''Small'',
               actual_location = str_of ''Small''\<rparr>]
   \<and> append_row py_lib example_ranges
         [(str_of ''xyzG'', Some (Fin 300)), (str_of ''Alpha'', None)]
         (str_of ''Alpha Project'') (str_of ''base'') [] = []
   \<and> append_row py_lib example_ranges
         [(str_of ''xyzG'', Some (Fin 300)), (str_of ''Alpha'', None)]
         (str_of ''Gamma'') (str_of ''Small'') []
       = [\<lparr>folder_name = str_of ''Gamma'', matched_project = str_of ''xyzG'',
            score = 2 / 9, project_size = Fin 300, target_category = str_of ''Small'',
            actual_location = str_of ''Small''\<rparr>]"
proof -
  let ?projects = "[(str_of ''xyzG'', Some (Fin 300)), (str_of ''Alpha'', None)]"
  have 1: "folders_to_report py_lib (str_of ''/base'') example_ranges example_tree_report
     = Inr [(str_of ''Alpha Project'', str_of ''base''), (str_of ''Gamma'', str_of ''Small'')]"
    by code_simp
  have 2: "list_all (\<lambda>(n, sz). matcher_ratio py_lib (str_of ''Alpha Project'') n \<le> 0)
         (sized ?projects)"
    by code_simp
  have 3: "list_ex (\<lambda>(n, sz). 0 < matcher_ratio py_lib (str_of ''Gamma'') n) (sized ?projects)"
    by code_simp
  have 4: "append_row py_lib example_ranges ?projects (str_of ''Gamma'') (str_of ''Small'') []
       = [\<lparr>folder_name = str_of ''Gamma'', matched_project = str_of ''xyzG'',
            score = 2 / 9, project_size = Fin 300, target_category = str_of ''Small'',
            actual_location = str_of ''Small''\<rparr>]"
    by code_simp
  from report_row_per_matched_folder [OF 1, of ?projects "str_of ''Alpha Project''" "str_of ''base''"]
  have 5: "generate py_lib (str_of ''/base'') example_ranges ?projects example_tree_report =
        Inr (concat (map (\<lambda>(folder, location).
               append_row py_lib example_ranges ?projects folder location [])
          [(str_of ''Alpha Project'', str_of ''base''), (str_of ''Gamma'', str_of ''Small'')]))"
    and 6: "append_row py_lib example_ranges ?projects (str_of ''Alpha Project'') (str_of ''base'') [] = []"
    using 2 by blast+
  show ?thesis using 1 2 3 4 5 6 by simp
qed

end
